theory Spec2Isabelle
  imports Complex_Main
begin

section \<open>float64\<close>

text \<open>
  A Go \<open>float64\<close> value (IEEE 754 binary64): not-a-number, an infinity, or a finite value,
  which is a real number of the form \<open>m * 2^k\<close> with \<open>|m| < 2^53\<close> and
  \<open>-1074 \<le> k \<le> 971\<close>. The sign of zero is not modelled. Every arithmetic operation
  rounds its exact result to the nearest such value, ties to the even one, as the hardware
  does; operations are rounded one by one (no fused multiply-add, as on amd64).
\<close>

datatype float64 = NaN | PosInf | NegInf | Finite real

definition pow2 :: "int \<Rightarrow> real" where
  "pow2 k = (if 0 \<le> k then 2 ^ nat k else 1 / 2 ^ nat (- k))"

definition representable :: "real \<Rightarrow> bool" where
  "representable x \<longleftrightarrow>
     (\<exists>m k. x = real_of_int m * pow2 k \<and> \<bar>m\<bar> < 2 ^ 53 \<and> - 1074 \<le> k \<and> k \<le> 971)"

text \<open>
  The exponent of the binade of \<open>x\<close>, at least that of the subnormal numbers; a unit in the
  last place there is \<open>2^(binade x - 52)\<close>.
\<close>

definition binade :: "real \<Rightarrow> int" where
  "binade x = max \<lfloor>log 2 \<bar>x\<bar>\<rfloor> (- 1022)"

definition round_half_even :: "real \<Rightarrow> int" where
  "round_half_even q =
     (let f = \<lfloor>q\<rfloor>; d = q - real_of_int f
      in if d < 1 / 2 then f else if 1 / 2 < d then f + 1 else if even f then f else f + 1)"

text \<open>Rounding to the nearest value of 53 bits, before the check for overflow.\<close>

definition nearest :: "real \<Rightarrow> real" where
  "nearest x =
     (if x = 0 then 0
      else let ulp = pow2 (binade x - 52)
           in real_of_int (round_half_even (x / ulp)) * ulp)"

definition round64 :: "real \<Rightarrow> float64" where
  "round64 x =
     (let y = nearest x
      in if 2 ^ 1024 \<le> y then PosInf else if y \<le> - (2 ^ 1024) then NegInf else Finite y)"

text \<open>The conversion \<open>float64(i)\<close> of an integer.\<close>

definition float64_of_int :: "int \<Rightarrow> float64" where
  "float64_of_int i = round64 (real_of_int i)"

fun fneg :: "float64 \<Rightarrow> float64" where
  "fneg NaN = NaN"
| "fneg PosInf = NegInf"
| "fneg NegInf = PosInf"
| "fneg (Finite x) = Finite (- x)"

fun fmul :: "float64 \<Rightarrow> float64 \<Rightarrow> float64" where
  "fmul NaN b = NaN"
| "fmul a NaN = NaN"
| "fmul (Finite x) (Finite y) = round64 (x * y)"
| "fmul (Finite x) b = (if x = 0 then NaN else if (0 < x) = (b = PosInf) then PosInf else NegInf)"
| "fmul a (Finite y) = (if y = 0 then NaN else if (0 < y) = (a = PosInf) then PosInf else NegInf)"
| "fmul a b = (if a = b then PosInf else NegInf)"

fun fadd :: "float64 \<Rightarrow> float64 \<Rightarrow> float64" where
  "fadd NaN b = NaN"
| "fadd a NaN = NaN"
| "fadd (Finite x) (Finite y) = round64 (x + y)"
| "fadd (Finite x) b = b"
| "fadd a (Finite y) = a"
| "fadd a b = (if a = b then a else NaN)"

definition fsub :: "float64 \<Rightarrow> float64 \<Rightarrow> float64" where
  "fsub a b = fadd a (fneg b)"

fun fdiv :: "float64 \<Rightarrow> float64 \<Rightarrow> float64" where
  "fdiv NaN b = NaN"
| "fdiv a NaN = NaN"
| "fdiv (Finite x) (Finite y) =
     (if y = 0 then (if x = 0 then NaN else if 0 < x then PosInf else NegInf)
      else round64 (x / y))"
| "fdiv (Finite x) b = Finite 0"
| "fdiv a (Finite y) = (if (0 \<le> y) = (a = PosInf) then PosInf else NegInf)"
| "fdiv a b = NaN"

text \<open>The comparisons \<open>a < b\<close> and \<open>a > b\<close>; both are false when either side is NaN.\<close>

fun flt :: "float64 \<Rightarrow> float64 \<Rightarrow> bool" where
  "flt NaN b = False"
| "flt a NaN = False"
| "flt (Finite x) (Finite y) = (x < y)"
| "flt PosInf b = False"
| "flt a PosInf = True"
| "flt a NegInf = False"
| "flt NegInf b = True"

definition fgt :: "float64 \<Rightarrow> float64 \<Rightarrow> bool" where
  "fgt a b = flt b a"

text \<open>
  The conversion \<open>int64(f)\<close>, which \<open>time.Duration(f)\<close> is: the fraction is discarded. When
  the value is NaN, infinite or beyond the range of \<open>int64\<close>, Go leaves the result to the
  implementation; the model takes what amd64 gives, the smallest \<open>int64\<close>.
\<close>

definition MinInt64 :: int where
  "MinInt64 = - (2 ^ 63)"

definition Duration_of_float :: "float64 \<Rightarrow> int" where
  "Duration_of_float f =
     (case f of
        Finite x \<Rightarrow>
          (let t = (if 0 \<le> x then \<lfloor>x\<rfloor> else \<lceil>x\<rceil>)
           in if - (2 ^ 63) \<le> t \<and> t < 2 ^ 63 then t else MinInt64)
      | _ \<Rightarrow> MinInt64)"

subsection \<open>math.Pow\<close>

text \<open>
  \<open>math.Frexp\<close> of a finite value other than 0: the fraction, of magnitude in \<open>[1/2, 1)\<close>,
  and the exponent.
\<close>

definition Frexp :: "real \<Rightarrow> real \<times> int" where
  "Frexp x = (let e = \<lfloor>log 2 \<bar>x\<bar>\<rfloor> + 1 in (x / pow2 e, e))"

text \<open>\<open>math.Ldexp\<close>: the fraction times \<open>2^exp\<close>, rounded once.\<close>

definition Ldexp :: "real \<Rightarrow> int \<Rightarrow> float64" where
  "Ldexp fr e = round64 (fr * pow2 e)"

text \<open>
  The loop of \<open>math.Pow\<close> over the bits of the integer part \<open>i\<close> of the exponent: the answer
  is \<open>a1 * 2^ae\<close>, the running square \<open>x1 * 2^xe\<close>.
\<close>

function pow_loop :: "nat \<Rightarrow> real \<Rightarrow> int \<Rightarrow> real \<Rightarrow> int \<Rightarrow> real \<times> int" where
  "pow_loop i a1 ae x1 xe =
     (if i = 0 then (a1, ae)
      else if xe < - 4096 \<or> 4096 < xe then (a1, ae + xe)
      else
        (let a1' = (if odd i then nearest (a1 * x1) else a1);
             ae' = (if odd i then ae + xe else ae);
             sq = nearest (x1 * x1);
             x1' = (if sq < 1 / 2 then sq + sq else sq);
             xe' = (if sq < 1 / 2 then 2 * xe - 1 else 2 * xe)
         in pow_loop (i div 2) a1' ae' x1' xe'))"
  by pat_completeness auto
termination
  by (relation "measure (\<lambda>(i, a1, ae, x1, xe). i)") auto

declare pow_loop.simps [simp del]

text \<open>
  \<open>math.Pow(x, y)\<close> as the Go library computes it, for an exponent \<open>y\<close> without fraction,
  which is what the conversion of an integer gives. The branch for an exponent with a
  fraction (through \<open>Exp\<close> and \<open>Log\<close>, or \<open>Sqrt\<close>) is left out and returns NaN here.
\<close>

definition isOddInt :: "real \<Rightarrow> bool" where
  "isOddInt y \<longleftrightarrow> real_of_int \<lfloor>y\<rfloor> = y \<and> odd \<lfloor>y\<rfloor>"

definition math_Pow :: "float64 \<Rightarrow> float64 \<Rightarrow> float64" where
  "math_Pow x y =
     (if y = Finite 0 \<or> x = Finite 1 then Finite 1
      else if y = Finite 1 then x
      else if x = NaN \<or> y = NaN then NaN
      else if x = Finite 0 then (if flt y (Finite 0) then PosInf else Finite 0)
      else if y = PosInf \<or> y = NegInf then
        (if x = Finite (- 1) then Finite 1
         else if (flt x (Finite 1) \<and> flt (Finite (- 1)) x) = (y = PosInf) then Finite 0
         else PosInf)
      else if x = PosInf then (if flt y (Finite 0) then Finite 0 else PosInf)
      else
        (case (x, y) of
           (NegInf, Finite v) \<Rightarrow>
             (if v < 0 then Finite 0 else if isOddInt v then NegInf else PosInf)
         | (Finite u, Finite v) \<Rightarrow>
             (if real_of_int \<lfloor>v\<rfloor> \<noteq> v then NaN
              else if 2 ^ 63 \<le> \<bar>v\<bar> then
                (if u = - 1 then Finite 1
                 else if (\<bar>u\<bar> < 1) = (0 < v) then Finite 0
                 else PosInf)
              else
                (case Frexp u of
                   (x1, xe) \<Rightarrow>
                     (case pow_loop (nat \<lfloor>\<bar>v\<bar>\<rfloor>) 1 0 x1 xe of
                        (a1, ae) \<Rightarrow>
                          if v < 0
                          then (case fdiv (Finite 1) (Finite a1) of
                                  Finite q \<Rightarrow> Ldexp q (- ae)
                                | other \<Rightarrow> other)
                          else Ldexp a1 ae)))
         | _ \<Rightarrow> NaN))"

text \<open>The real number a finite value stands for; 0 for the others.\<close>

definition float_value :: "float64 \<Rightarrow> real" where
  "float_value f = (case f of Finite x \<Rightarrow> x | _ \<Rightarrow> 0)"


section \<open>Error taxonomy (errors.go)\<close>

text \<open>
  Errors produced by the JSON decoder of the Go standard library (encoding/json), as far as
  the schema step can observe them.
\<close>

datatype go_type = TString | TInt | TBool | TStruct "(string \<times> go_type) list"

datatype json_error =
    JsonEOF
  | JsonSyntaxError
  | UnmarshalTypeError string go_type
  | UnknownField string

text \<open>
  A Go \<open>error\<close> value. The wrappers of errors.go keep their cause in the field \<open>Err\<close>
  (\<open>LastErr\<close> for MaxRetriesError), which may be nil: \<open>None\<close> here.
  \<open>ErrWrap\<close> is an error made by \<open>fmt.Errorf\<close> with \<open>%w\<close>, or any other error with an
  \<open>Unwrap\<close> method; \<open>ErrNew\<close> is a leaf made by \<open>errors.New\<close> or \<open>fmt.Errorf\<close> without
  \<open>%w\<close>. \<open>Canceled\<close> and \<open>DeadlineExceeded\<close> are the two sentinels of package context.
  \<open>Panic\<close> stands for a run-time panic (nil dereference).
\<close>

datatype err =
    Canceled
  | DeadlineExceeded
  | ErrNew string
  | ErrJSON json_error
  | ErrWrap string err
  | DetectionError string "err option"
  | ValidationError string "err option"
  | SchemaError "err option"
  | GenerationError "err option"
  | MaxRetriesError int "err option"
  | Panic

definition ErrNoClient :: err where
  "ErrNoClient = ErrNew ''railguard: no client provided''"

definition ErrNilClient :: err where
  "ErrNilClient = ErrNew ''railguard: client cannot be nil''"

definition ErrNilDetector :: err where
  "ErrNilDetector = ErrNew ''railguard: detector cannot be nil''"

definition ErrNilValidator :: err where
  "ErrNilValidator = ErrNew ''railguard: validator cannot be nil''"

definition ErrInvalidRetryConfig :: err where
  "ErrInvalidRetryConfig = ErrNew ''railguard: invalid retry configuration''"

definition ErrInvalidTimeout :: err where
  "ErrInvalidTimeout = ErrNew ''railguard: timeout must be positive''"

definition ErrInvalidSchema :: err where
  "ErrInvalidSchema = ErrNew ''railguard: schema must be a pointer to a struct''"

text \<open>The \<open>Unwrap\<close> methods of errors.go; a leaf has none.\<close>

fun Unwrap :: "err \<Rightarrow> err option" where
  "Unwrap (ErrWrap m e) = Some e"
| "Unwrap (DetectionError n c) = c"
| "Unwrap (ValidationError n c) = c"
| "Unwrap (SchemaError c) = c"
| "Unwrap (GenerationError c) = c"
| "Unwrap (MaxRetriesError n c) = c"
| "Unwrap e = None"

text \<open>
  The cause chain that \<open>errors.Is\<close> and \<open>errors.As\<close> walk: the error itself, then what
  \<open>Unwrap\<close> returns, until it returns nil.
\<close>

fun chain :: "err \<Rightarrow> err list" where
  "chain (ErrWrap m e) = ErrWrap m e # chain e"
| "chain (DetectionError n (Some e)) = DetectionError n (Some e) # chain e"
| "chain (ValidationError n (Some e)) = ValidationError n (Some e) # chain e"
| "chain (SchemaError (Some e)) = SchemaError (Some e) # chain e"
| "chain (GenerationError (Some e)) = GenerationError (Some e) # chain e"
| "chain (MaxRetriesError n (Some e)) = MaxRetriesError n (Some e) # chain e"
| "chain e = [e]"

fun isDetectionError :: "err \<Rightarrow> bool" where
  "isDetectionError (DetectionError n c) = True"
| "isDetectionError e = False"

text \<open>\<open>errors.As(err, &detectionErr)\<close> with \<open>detectionErr\<close> of type \<open>*DetectionError\<close>.\<close>

definition errors_As_DetectionError :: "err \<Rightarrow> bool" where
  "errors_As_DetectionError e = list_ex isDetectionError (chain e)"

text \<open>
  \<open>errors.Is(err, target)\<close> for a sentinel target, which is compared by value. None of the
  errors of this model has an \<open>Is\<close> method.
\<close>

definition errors_Is :: "err \<Rightarrow> err \<Rightarrow> bool" where
  "errors_Is e target = list_ex (\<lambda>x. x = target) (chain e)"

section \<open>Retry policy (retry.go)\<close>

text \<open>
  \<open>time.Duration\<close> is a count of nanoseconds (an \<open>int64\<close>), here an \<open>int\<close>. The two \<open>float64\<close>
  fields are values of the type \<open>float64\<close>, and \<open>delay\<close> computes with the rounding
  operations on that type.
\<close>

record RetryConfig =
  MaxAttempts :: int
  InitialDelay :: int
  MaxDelay :: int
  Multiplier :: float64
  Jitter :: float64

text \<open>The constant \<open>0.1\<close> of the source is the \<open>float64\<close> nearest to one tenth.\<close>

definition DefaultRetryConfig :: RetryConfig where
  "DefaultRetryConfig =
     \<lparr>MaxAttempts = 3, InitialDelay = 100 * 1000000, MaxDelay = 5 * 1000000000,
      Multiplier = Finite 2, Jitter = round64 (1 / 10)\<rparr>"

definition Validate :: "RetryConfig \<Rightarrow> err option" where
  "Validate c =
     (if MaxAttempts c < 1 then Some (ErrNew ''max attempts must be at least 1'')
      else if InitialDelay c < 0 then Some (ErrNew ''initial delay cannot be negative'')
      else if MaxDelay c < 0 then Some (ErrNew ''max delay cannot be negative'')
      else if flt (Multiplier c) (Finite 1) then Some (ErrNew ''multiplier must be at least 1'')
      else if flt (Jitter c) (Finite 0) \<or> fgt (Jitter c) (Finite 1)
      then Some (ErrNew ''jitter must be between 0 and 1'')
      else None)"

text \<open>
  \<open>delay\<close>; the third argument is the value that the call \<open>rand.Float64()\<close> returns, a
  \<open>float64\<close> in the half-open interval from 0 to 1. It is read only when \<open>Jitter > 0\<close>.
  \<open>capped\<close> is the value of the variable \<open>delay\<close> after the cap.
\<close>

definition capped :: "RetryConfig \<Rightarrow> int \<Rightarrow> float64" where
  "capped c attempt =
     (let delay = fmul (float64_of_int (InitialDelay c))
                    (math_Pow (Multiplier c) (float64_of_int (attempt - 1)))
      in if fgt delay (float64_of_int (MaxDelay c)) then float64_of_int (MaxDelay c) else delay)"

definition delay :: "RetryConfig \<Rightarrow> int \<Rightarrow> float64 \<Rightarrow> int" where
  "delay c attempt rnd =
     (if attempt = 0 \<or> InitialDelay c = 0 then 0
      else let delay = capped c attempt;
               delay = (if fgt (Jitter c) (Finite 0)
                        then let jitterRange = fmul delay (Jitter c)
                             in fadd (fsub delay jitterRange) (fmul (fmul rnd (Finite 2)) jitterRange)
                        else delay)
           in Duration_of_float delay)"

text \<open>
  A \<open>context.Context\<close>, as far as Run builds one: the caller's context, possibly under the
  guard's timeout.
\<close>

datatype Context = Caller | context_WithTimeout Context int

text \<open>
  What a run cannot decide by itself: the draws of the random generator, whether the
  context ends during a wait, and the clock. Each is indexed by the attempt (0-indexed) in
  which it is consulted. \<open>ctx_Done_first ctx attempt d\<close> is \<open>Some (ctx.Err())\<close> when the
  \<open>select\<close> of \<open>backoff\<close> takes the branch \<open>ctx.Done()\<close> during a wait of \<open>d\<close> nanoseconds,
  and \<open>None\<close> when the timer fires.
\<close>

record world =
  rand_Float64 :: "int \<Rightarrow> float64"
  ctx_Done_first :: "Context \<Rightarrow> int \<Rightarrow> int \<Rightarrow> err option"
  time_Since :: "int \<Rightarrow> int"

definition backoff :: "RetryConfig \<Rightarrow> world \<Rightarrow> Context \<Rightarrow> int \<Rightarrow> err option" where
  "backoff c w ctx attempt =
     (let delay = delay c attempt (rand_Float64 w attempt)
      in if delay = 0 then None else ctx_Done_first w ctx attempt delay)"

definition fatalErrors :: "err list" where
  "fatalErrors = [Canceled, DeadlineExceeded]"

text \<open>\<open>shouldRetry\<close>; the argument \<open>None\<close> is a nil error.\<close>

definition shouldRetry :: "err option \<Rightarrow> bool" where
  "shouldRetry err =
     (case err of
        None \<Rightarrow> False
      | Some e \<Rightarrow>
          if errors_As_DetectionError e then False
          else if list_ex (\<lambda>fatalErr. errors_Is e fatalErr) fatalErrors then False
          else True)"


text \<open>
  The spec's \<open>base = min(maxDelay, initialDelay*multiplier^(a-1))\<close>, written from the spec's
  words; \<open>capped\<close> is what the code computes.
\<close>

definition base :: "RetryConfig \<Rightarrow> int \<Rightarrow> real" where
  "base c a =
     min (real_of_int (MaxDelay c))
       (real_of_int (InitialDelay c) * float_value (Multiplier c) ^ nat (a - 1))"

text \<open>
  The spec's perturbed value for the draw \<open>r\<close>, computed without rounding: \<open>base\<close> moved by
  the fraction \<open>2r - 1\<close> of \<open>base * j\<close>.
\<close>

definition jittered :: "RetryConfig \<Rightarrow> int \<Rightarrow> real \<Rightarrow> real" where
  "jittered c a r =
     base c a - base c a * float_value (Jitter c) + r * 2 * (base c a * float_value (Jitter c))"


section \<open>JSON decoding (encoding/json, as Schema.Unmarshal uses it)\<close>

text \<open>
  The schema step hands its input to \<open>json.Decoder\<close> of the Go standard library. The model
  below follows that decoder: a scanner that reads exactly one JSON value from the front of
  the input and stops at its last byte, the decoding of that value into a struct, and
  \<open>Decoder.More\<close>. Input is a list of bytes (\<open>char\<close> is a byte).

  Covered field types are \<open>string\<close>, \<open>int\<close> (64 bits), \<open>bool\<close> and nested structs, named
  by their JSON names. Not covered: other field types, custom unmarshalers, struct tags
  beyond the name, the replacement of invalid UTF-8 by U+FFFD, and case folding outside
  ASCII.
\<close>

datatype json =
    JNull
  | JBool bool
  | JNumber string
  | JString string
  | JArray "json list"
  | JObject "(string \<times> json) list"

datatype token =
    LBrace | RBrace | LBrack | RBrack | Colon | Comma
  | TokString string
  | TokNumber string
  | TokTrue | TokFalse | TokNull

definition isSpace :: "char \<Rightarrow> bool" where
  "isSpace c = (c = CHR '' '' \<or> c = CHR 0x09 \<or> c = CHR 0x0D \<or> c = CHR 0x0A)"

definition isDigit :: "char \<Rightarrow> bool" where
  "isDigit c = (48 \<le> (of_char c :: nat) \<and> (of_char c :: nat) \<le> 57)"

definition hexval :: "char \<Rightarrow> nat option" where
  "hexval c =
     (let n = (of_char c :: nat)
      in if 48 \<le> n \<and> n \<le> 57 then Some (n - 48)
         else if 97 \<le> n \<and> n \<le> 102 then Some (n - 87)
         else if 65 \<le> n \<and> n \<le> 70 then Some (n - 55)
         else None)"

text \<open>\<open>getu4\<close> on the four bytes after \<open>\u\<close>: the code unit, or \<open>None\<close> for Go's \<open>-1\<close>.\<close>

definition getu4 :: "string \<Rightarrow> nat option" where
  "getu4 s =
     (case s of
        a # b # c # d # _ \<Rightarrow>
          (case (hexval a, hexval b, hexval c, hexval d) of
             (Some x, Some y, Some z, Some w) \<Rightarrow> Some (((x * 16 + y) * 16 + z) * 16 + w)
           | _ \<Rightarrow> None)
      | _ \<Rightarrow> None)"

text \<open>\<open>utf8.EncodeRune\<close>: surrogates and values beyond U+10FFFF become U+FFFD.\<close>

definition byte :: "nat \<Rightarrow> char" where
  "byte n = char_of n"

definition EncodeRune :: "nat \<Rightarrow> string" where
  "EncodeRune r =
     (if r \<le> 0x7F then [byte r]
      else if r \<le> 0x7FF then [byte (0xC0 + r div 64), byte (0x80 + r mod 64)]
      else if r > 0x10FFFF \<or> (0xD800 \<le> r \<and> r \<le> 0xDFFF) then [byte 0xEF, byte 0xBF, byte 0xBD]
      else if r \<le> 0xFFFF
        then [byte (0xE0 + r div 4096), byte (0x80 + (r div 64) mod 64), byte (0x80 + r mod 64)]
      else [byte (0xF0 + r div 262144), byte (0x80 + (r div 4096) mod 64),
            byte (0x80 + (r div 64) mod 64), byte (0x80 + r mod 64)])"

text \<open>
  The escape \<open>\uXXXX\<close>, given the bytes after \<open>\u\<close>: the bytes it stands for and the number
  of input bytes consumed after \<open>\u\<close> (4, or 10 for a valid surrogate pair).
\<close>

definition unicode_escape :: "string \<Rightarrow> (string \<times> nat) option" where
  "unicode_escape s =
     (case getu4 s of
        None \<Rightarrow> None
      | Some rr \<Rightarrow>
          if 0xD800 \<le> rr \<and> rr < 0xE000 then
            (case (if take 2 (drop 4 s) = [CHR 0x5C, CHR ''u''] then getu4 (drop 6 s) else None) of
               Some rr1 \<Rightarrow>
                 if rr < 0xDC00 \<and> 0xDC00 \<le> rr1 \<and> rr1 < 0xE000
                 then Some (EncodeRune ((rr - 0xD800) * 1024 + (rr1 - 0xDC00) + 0x10000), 10)
                 else Some (EncodeRune 0xFFFD, 4)
             | None \<Rightarrow> Some (EncodeRune 0xFFFD, 4))
          else Some (EncodeRune rr, 4))"

definition simple_escape :: "char \<Rightarrow> char option" where
  "simple_escape e =
     (if e = CHR 0x22 \<or> e = CHR 0x5C \<or> e = CHR ''/'' then Some e
      else if e = CHR ''b'' then Some (CHR 0x08)
      else if e = CHR ''f'' then Some (CHR 0x0C)
      else if e = CHR ''n'' then Some (CHR 0x0A)
      else if e = CHR ''r'' then Some (CHR 0x0D)
      else if e = CHR ''t'' then Some (CHR 0x09)
      else None)"

text \<open>
  A string literal, from the byte after its opening quote: the unquoted bytes and the input
  after the closing quote. Control characters and unknown escapes are syntax errors.
\<close>

function string_lit :: "string \<Rightarrow> (string \<times> string) option" where
  "string_lit s =
     (case s of
        [] \<Rightarrow> None
      | c # cs \<Rightarrow>
          if c = CHR 0x22 then Some ([], cs)
          else if c = CHR 0x5C then
            (case cs of
               [] \<Rightarrow> None
             | e # es \<Rightarrow>
                 if e = CHR ''u'' then
                   (case unicode_escape es of
                      None \<Rightarrow> None
                    | Some (bs, n) \<Rightarrow>
                        (case string_lit (drop n es) of
                           None \<Rightarrow> None
                         | Some (v, r) \<Rightarrow> Some (bs @ v, r)))
                 else
                   (case simple_escape e of
                      None \<Rightarrow> None
                    | Some b \<Rightarrow>
                        (case string_lit es of
                           None \<Rightarrow> None
                         | Some (v, r) \<Rightarrow> Some (b # v, r))))
          else if (of_char c :: nat) < 0x20 then None
          else
            (case string_lit cs of
               None \<Rightarrow> None
             | Some (v, r) \<Rightarrow> Some (c # v, r)))"
  by pat_completeness auto
termination
  by (relation "measure length") auto

declare string_lit.simps [simp del]

text \<open>
  A number literal, by the states of the scanner: an optional minus, \<open>0\<close> or a digit from 1
  to 9 followed by digits, an optional fraction and an optional exponent, each with at least
  one digit. The literal ends before the first byte that cannot continue it.
\<close>

definition number_exp :: "string \<Rightarrow> string \<Rightarrow> (string \<times> string) option" where
  "number_exp pre s =
     (case s of
        [] \<Rightarrow> Some (pre, s)
      | e # r \<Rightarrow>
          if e = CHR ''e'' \<or> e = CHR ''E'' then
            (let sg = (case r of [] \<Rightarrow> [] | c # _ \<Rightarrow> if c = CHR ''+'' \<or> c = CHR ''-'' then [c] else []);
                 r1 = drop (length sg) r;
                 ds = takeWhile isDigit r1
             in if ds = [] then None else Some (pre @ e # sg @ ds, dropWhile isDigit r1))
          else Some (pre, s))"

definition number_frac :: "string \<Rightarrow> string \<Rightarrow> (string \<times> string) option" where
  "number_frac pre s =
     (case s of
        [] \<Rightarrow> Some (pre, s)
      | d # r \<Rightarrow>
          if d = CHR ''.'' then
            (let ds = takeWhile isDigit r
             in if ds = [] then None else number_exp (pre @ d # ds) (dropWhile isDigit r))
          else number_exp pre s)"

definition number_lit :: "string \<Rightarrow> (string \<times> string) option" where
  "number_lit s =
     (let sg = (case s of [] \<Rightarrow> [] | c # _ \<Rightarrow> if c = CHR ''-'' then [c] else []);
          s1 = drop (length sg) s
      in case s1 of
           [] \<Rightarrow> None
         | c # cs \<Rightarrow>
             if c = CHR ''0'' then number_frac (sg @ [c]) cs
             else if isDigit c
               then number_frac (sg @ c # takeWhile isDigit cs) (dropWhile isDigit cs)
             else None)"

text \<open>The token that begins with the byte \<open>c\<close>, followed by the bytes \<open>cs\<close>.\<close>

definition token_at :: "char \<Rightarrow> string \<Rightarrow> (token \<times> string) option" where
  "token_at c cs =
     (if c = CHR ''{'' then Some (LBrace, cs)
      else if c = CHR ''}'' then Some (RBrace, cs)
      else if c = CHR ''['' then Some (LBrack, cs)
      else if c = CHR '']'' then Some (RBrack, cs)
      else if c = CHR '':'' then Some (Colon, cs)
      else if c = CHR '','' then Some (Comma, cs)
      else if c = CHR 0x22 then
        (case string_lit cs of None \<Rightarrow> None | Some (v, r) \<Rightarrow> Some (TokString v, r))
      else if c = CHR ''-'' \<or> isDigit c then
        (case number_lit (c # cs) of None \<Rightarrow> None | Some (v, r) \<Rightarrow> Some (TokNumber v, r))
      else if c = CHR ''t'' then
        (if take 3 cs = ''rue'' then Some (TokTrue, drop 3 cs) else None)
      else if c = CHR ''f'' then
        (if take 4 cs = ''alse'' then Some (TokFalse, drop 4 cs) else None)
      else if c = CHR ''n'' then
        (if take 3 cs = ''ull'' then Some (TokNull, drop 3 cs) else None)
      else None)"

text \<open>The next token, after any white space; \<open>None\<close> at the end of input or on a bad byte.\<close>

definition next_token :: "string \<Rightarrow> (token \<times> string) option" where
  "next_token s = (case dropWhile isSpace s of [] \<Rightarrow> None | c # cs \<Rightarrow> token_at c cs)"

text \<open>
  The scanner's stack of open arrays and objects (\<open>parseState\<close>), here with the part of each
  container read so far, newest member first. An object frame holds the key whose value is
  awaited.
\<close>

datatype frame =
    InArray "json list"
  | InObject "(string \<times> json) list" "string option"

datatype mode = BeginValue | BeginValueOrEmpty | BeginStringOrEmpty | BeginString | EndValue

datatype step_result = Fail | Done json | Next "frame list" mode

definition maxNestingDepth :: nat where
  "maxNestingDepth = 10000"

text \<open>A value is complete: it is the result, or it joins the innermost open container.\<close>

fun complete :: "json \<Rightarrow> frame list \<Rightarrow> step_result" where
  "complete v [] = Done v"
| "complete v (InArray es # st) = Next (InArray (v # es) # st) EndValue"
| "complete v (InObject ms (Some k) # st) = Next (InObject ((k, v) # ms) None # st) EndValue"
| "complete v (InObject ms None # st) = Fail"

definition push :: "frame \<Rightarrow> frame list \<Rightarrow> mode \<Rightarrow> step_result" where
  "push f st m = (if length st < maxNestingDepth then Next (f # st) m else Fail)"

fun begin_value :: "frame list \<Rightarrow> token \<Rightarrow> step_result" where
  "begin_value st LBrace = push (InObject [] None) st BeginStringOrEmpty"
| "begin_value st LBrack = push (InArray []) st BeginValueOrEmpty"
| "begin_value st (TokString v) = complete (JString v) st"
| "begin_value st (TokNumber v) = complete (JNumber v) st"
| "begin_value st TokTrue = complete (JBool True) st"
| "begin_value st TokFalse = complete (JBool False) st"
| "begin_value st TokNull = complete JNull st"
| "begin_value st t = Fail"

definition begin_string :: "frame list \<Rightarrow> token \<Rightarrow> step_result" where
  "begin_string st t =
     (case (st, t) of
        (InObject ms None # st', TokString k) \<Rightarrow> Next (InObject ms (Some k) # st') EndValue
      | _ \<Rightarrow> Fail)"

definition end_value :: "frame list \<Rightarrow> token \<Rightarrow> step_result" where
  "end_value st t =
     (case st of
        InObject ms (Some k) # st' \<Rightarrow>
          (if t = Colon then Next (InObject ms (Some k) # st') BeginValue else Fail)
      | InObject ms None # st' \<Rightarrow>
          (if t = Comma then Next (InObject ms None # st') BeginString
           else if t = RBrace then complete (JObject (rev ms)) st'
           else Fail)
      | InArray es # st' \<Rightarrow>
          (if t = Comma then Next (InArray es # st') BeginValue
           else if t = RBrack then complete (JArray (rev es)) st'
           else Fail)
      | [] \<Rightarrow> Fail)"

definition step :: "frame list \<Rightarrow> mode \<Rightarrow> token \<Rightarrow> step_result" where
  "step st m t =
     (case m of
        BeginValue \<Rightarrow> begin_value st t
      | BeginValueOrEmpty \<Rightarrow>
          (case st of
             InArray [] # st' \<Rightarrow> if t = RBrack then complete (JArray []) st' else begin_value st t
           | _ \<Rightarrow> begin_value st t)
      | BeginStringOrEmpty \<Rightarrow>
          (case st of
             InObject [] None # st' \<Rightarrow>
               if t = RBrace then complete (JObject []) st' else begin_string st t
           | _ \<Rightarrow> begin_string st t)
      | BeginString \<Rightarrow> begin_string st t
      | EndValue \<Rightarrow> end_value st t)"

lemma string_lit_shorter: "string_lit s = Some (v, r) \<Longrightarrow> length r < length s"
proof (induction s arbitrary: v r rule: string_lit.induct)
  case (1 s)
  show ?case
  proof (cases s)
    case Nil
    with "1.prems" show ?thesis by (simp add: string_lit.simps [of "[]"])
  next
    case (Cons c cs)
    note s = Cons
    note p = "1.prems" [unfolded s string_lit.simps [of "c # cs"], simplified]
    show ?thesis
    proof (cases "c = CHR 0x22")
      case True
      with p s show ?thesis by simp
    next
      case nq: False
      show ?thesis
      proof (cases "c = CHR 0x5C")
        case bs: True
        show ?thesis
        proof (cases cs)
          case Nil
          with p nq bs show ?thesis by simp
        next
          case (Cons e es)
          note cs = Cons
          show ?thesis
          proof (cases "e = CHR ''u''")
            case True
            with p nq bs cs obtain b n v' where
              u: "unicode_escape es = Some (b, n)" and l: "string_lit (drop n es) = Some (v', r)"
              by (auto split: option.splits)
            from "1.IH"(1) [OF s nq bs cs True u refl l]
            have "length r < length (drop n es)" .
            with s cs show ?thesis by simp
          next
            case False
            with p nq bs cs obtain b v' where
              u: "simple_escape e = Some b" and l: "string_lit es = Some (v', r)"
              by (auto split: option.splits)
            from "1.IH"(2) [OF s nq bs cs False u l]
            have "length r < length es" .
            with s cs show ?thesis by simp
          qed
        qed
      next
        case nb: False
        with p nq obtain v' where
          c: "\<not> (of_char c :: nat) < 0x20" and l: "string_lit cs = Some (v', r)"
          by (auto split: option.splits if_splits)
        from "1.IH"(3) [OF s nq nb c l] have "length r < length cs" .
        with s show ?thesis by simp
      qed
    qed
  qed
qed

lemma le_dropWhile: "n \<le> length (dropWhile P xs) \<Longrightarrow> n \<le> length xs"
  using length_dropWhile_le [of P xs] by simp

lemma number_exp_shorter: "number_exp pre s = Some (v, r) \<Longrightarrow> length r \<le> length s"
proof (cases s)
  case Nil
  then show "number_exp pre s = Some (v, r) \<Longrightarrow> ?thesis" by (simp add: number_exp_def)
next
  case (Cons e t)
  assume a: "number_exp pre s = Some (v, r)"
  show ?thesis
  proof (cases "e = CHR ''e'' \<or> e = CHR ''E''")
    case False
    with a Cons show ?thesis by (auto simp: number_exp_def)
  next
    case True
    with a Cons obtain k where "r = dropWhile isDigit (drop k t)"
      by (auto simp: number_exp_def Let_def split: if_splits)
    then have "length r \<le> length (drop k t)" by (simp only: length_dropWhile_le)
    then have "length r \<le> length t" by simp
    with Cons show ?thesis by simp
  qed
qed

lemma number_frac_shorter: "number_frac pre s = Some (v, r) \<Longrightarrow> length r \<le> length s"
proof (cases s)
  case Nil
  then show "number_frac pre s = Some (v, r) \<Longrightarrow> ?thesis" by (simp add: number_frac_def)
next
  case (Cons d t)
  assume a: "number_frac pre s = Some (v, r)"
  show ?thesis
  proof (cases "d = CHR ''.''")
    case False
    with a Cons have "number_exp pre s = Some (v, r)" by (simp add: number_frac_def)
    then show ?thesis by (rule number_exp_shorter)
  next
    case True
    with a Cons obtain p where "number_exp p (dropWhile isDigit t) = Some (v, r)"
      by (auto simp: number_frac_def Let_def split: if_splits)
    then have "length r \<le> length (dropWhile isDigit t)" by (rule number_exp_shorter)
    then have "length r \<le> length t" by (rule le_dropWhile)
    with Cons show ?thesis by simp
  qed
qed

lemma number_lit_shorter: "number_lit s = Some (v, r) \<Longrightarrow> length r < length s"
proof -
  assume a: "number_lit s = Some (v, r)"
  define sg where "sg = (case s of [] \<Rightarrow> [] | c # _ \<Rightarrow> if c = CHR ''-'' then [c] else [])"
  define s1 where "s1 = drop (length sg) s"
  from a have b: "(case s1 of
           [] \<Rightarrow> None
         | c # cs \<Rightarrow>
             if c = CHR ''0'' then number_frac (sg @ [c]) cs
             else if isDigit c
               then number_frac (sg @ c # takeWhile isDigit cs) (dropWhile isDigit cs)
             else None) = Some (v, r)"
    by (simp only: number_lit_def Let_def sg_def s1_def)
  then obtain c cs where s1: "s1 = c # cs" by (cases s1) simp_all
  have "length r \<le> length cs"
  proof (cases "c = CHR ''0''")
    case True
    with b s1 have "number_frac (sg @ [c]) cs = Some (v, r)" by simp
    then show ?thesis by (rule number_frac_shorter)
  next
    case False
    with b s1 have "number_frac (sg @ c # takeWhile isDigit cs) (dropWhile isDigit cs) = Some (v, r)"
      by (simp split: if_splits)
    then have "length r \<le> length (dropWhile isDigit cs)" by (rule number_frac_shorter)
    then show ?thesis by (rule le_dropWhile)
  qed
  moreover from s1 have "length s1 = Suc (length cs)" by simp
  then have "length cs < length s" by (simp add: s1_def)
  ultimately show ?thesis by simp
qed


lemma next_token_shorter: "next_token s = Some (t, r) \<Longrightarrow> length r < length s"
proof -
  assume a: "next_token s = Some (t, r)"
  have d: "length (dropWhile isSpace s) \<le> length s" by (rule length_dropWhile_le)
  from a obtain c cs where s: "dropWhile isSpace s = c # cs"
    by (cases "dropWhile isSpace s") (simp_all add: next_token_def)
  from a s have b: "token_at c cs = Some (t, r)" by (simp add: next_token_def)
  have "length r \<le> length cs"
  proof (cases "string_lit cs")
    case None
    show ?thesis
    proof (cases "number_lit (c # cs)")
      case n: None
      from b None n have "r = cs \<or> r = drop 3 cs \<or> r = drop 4 cs"
        by (simp add: token_at_def split: if_splits)
      then show ?thesis by auto
    next
      case (Some p)
      then obtain v r' where n: "number_lit (c # cs) = Some (v, r')" by (cases p) simp
      then have "length r' \<le> length cs" by (auto dest: number_lit_shorter)
      moreover from b None n have "r = cs \<or> r = drop 3 cs \<or> r = drop 4 cs \<or> r = r'"
        by (simp add: token_at_def split: if_splits)
      ultimately show ?thesis by auto
    qed
  next
    case (Some q)
    then obtain w r'' where q: "string_lit cs = Some (w, r'')" by (cases q) simp
    then have l1: "length r'' \<le> length cs" by (auto dest: string_lit_shorter)
    show ?thesis
    proof (cases "number_lit (c # cs)")
      case n: None
      from b q n have "r = cs \<or> r = drop 3 cs \<or> r = drop 4 cs \<or> r = r''"
        by (simp add: token_at_def split: if_splits)
      with l1 show ?thesis by auto
    next
      case (Some p)
      then obtain v r' where n: "number_lit (c # cs) = Some (v, r')" by (cases p) simp
      then have "length r' \<le> length cs" by (auto dest: number_lit_shorter)
      moreover from b q n
      have "r = cs \<or> r = drop 3 cs \<or> r = drop 4 cs \<or> r = r' \<or> r = r''"
        by (simp add: token_at_def split: if_splits)
      ultimately show ?thesis using l1 by auto
    qed
  qed
  with d s show ?thesis by simp
qed

text \<open>
  Reading one value (\<open>Decoder.readValue\<close>): tokens are consumed until the value that began
  first is complete. The result is the value and the input after its last byte.
\<close>

function scan :: "frame list \<Rightarrow> mode \<Rightarrow> string \<Rightarrow> (json \<times> string) option" where
  "scan st m s =
     (case next_token s of
        None \<Rightarrow> None
      | Some (t, r) \<Rightarrow>
          (case step st m t of
             Fail \<Rightarrow> None
           | Done v \<Rightarrow> Some (v, r)
           | Next st' m' \<Rightarrow> scan st' m' r))"
  by pat_completeness auto
termination
  by (relation "measure (\<lambda>(st, m, s). length s)") (auto dest: next_token_shorter)

declare scan.simps [simp del]

definition readValue :: "string \<Rightarrow> (json \<times> string) option" where
  "readValue data = scan [] BeginValue data"

text \<open>
  A decoded Go value. A struct value lists its fields in declaration order, by JSON name.
\<close>

datatype go_value =
    VString string
  | VInt int
  | VBool bool
  | VStruct "(string \<times> go_value) list"

text \<open>The zero value of a type, which \<open>reflect.New\<close> allocates.\<close>

fun zero_value :: "go_type \<Rightarrow> go_value"
  and zero_fields :: "(string \<times> go_type) list \<Rightarrow> (string \<times> go_value) list" where
  "zero_value TString = VString []"
| "zero_value TInt = VInt 0"
| "zero_value TBool = VBool False"
| "zero_value (TStruct fs) = VStruct (zero_fields fs)"
| "zero_fields [] = []"
| "zero_fields ((n, t) # fs) = (n, zero_value t) # zero_fields fs"

text \<open>
  Matching an object key to a struct field: the field of exactly that name, else the first
  field whose name equals the key when ASCII letters are compared without case.
\<close>

definition foldChar :: "char \<Rightarrow> char" where
  "foldChar c =
     (let n = (of_char c :: nat) in if 97 \<le> n \<and> n \<le> 122 then char_of (n - 32) else c)"

definition foldName :: "string \<Rightarrow> string" where
  "foldName s = map foldChar s"

definition find_field :: "(string \<times> go_type) list \<Rightarrow> string \<Rightarrow> (string \<times> go_type) option" where
  "find_field fs key =
     (case find (\<lambda>f. fst f = key) fs of
        Some f \<Rightarrow> Some f
      | None \<Rightarrow> find (\<lambda>f. foldName (fst f) = foldName key) fs)"

text \<open>
  \<open>strconv.ParseInt(s, 10, 64)\<close> on a JSON number literal: an optional minus and decimal
  digits only, with a value that fits 64 bits.
\<close>

definition digits_value :: "string \<Rightarrow> int" where
  "digits_value ds = foldl (\<lambda>acc c. acc * 10 + (int (of_char c) - 48)) 0 ds"

definition ParseInt :: "string \<Rightarrow> int option" where
  "ParseInt s =
     (let neg = (case s of [] \<Rightarrow> False | c # _ \<Rightarrow> c = CHR ''-'');
          ds = (if neg then tl s else s)
      in if ds = [] \<or> \<not> list_all isDigit ds then None
         else let n = (if neg then - digits_value ds else digits_value ds)
              in if - (2 ^ 63) \<le> n \<and> n < 2 ^ 63 then Some n else None)"

definition json_kind :: "json \<Rightarrow> string" where
  "json_kind j =
     (case j of
        JNull \<Rightarrow> ''null''
      | JBool b \<Rightarrow> ''bool''
      | JNumber n \<Rightarrow> ''number''
      | JString s \<Rightarrow> ''string''
      | JArray es \<Rightarrow> ''array''
      | JObject ms \<Rightarrow> ''object'')"

definition field_value :: "(string \<times> go_value) list \<Rightarrow> string \<Rightarrow> go_type \<Rightarrow> go_value" where
  "field_value vals n t = (case map_of vals n of Some v \<Rightarrow> v | None \<Rightarrow> zero_value t)"

definition set_field :: "(string \<times> go_value) list \<Rightarrow> string \<Rightarrow> go_value \<Rightarrow> (string \<times> go_value) list" where
  "set_field vals n v = map (\<lambda>(k, old). if k = n then (k, v) else (k, old)) vals"

definition struct_fields :: "go_value \<Rightarrow> (string \<times> go_type) list \<Rightarrow> (string \<times> go_value) list" where
  "struct_fields cur fs = (case cur of VStruct vals \<Rightarrow> vals | _ \<Rightarrow> zero_fields fs)"

text \<open>
  Decoding a JSON value into an existing Go value of the given type
  (\<open>decodeState.value\<close>). \<open>null\<close> leaves the value as it is. A value of the wrong kind is
  an \<open>UnmarshalTypeError\<close>. In an object, members are taken in input order; a key that
  matches no field is skipped, or, when \<open>disallowUnknownFields\<close> is set, an error. The
  decoder reports the first error it met, so the model stops there.
\<close>

fun decode_into :: "bool \<Rightarrow> go_type \<Rightarrow> json \<Rightarrow> go_value \<Rightarrow> json_error + go_value"
  and decode_members :: "bool \<Rightarrow> (string \<times> go_type) list \<Rightarrow> (string \<times> json) list
        \<Rightarrow> (string \<times> go_value) list \<Rightarrow> json_error + (string \<times> go_value) list" where
  "decode_into du t JNull cur = Inr cur"
| "decode_into du t (JBool b) cur =
     (if t = TBool then Inr (VBool b) else Inl (UnmarshalTypeError ''bool'' t))"
| "decode_into du t (JNumber n) cur =
     (if t = TInt then
        (case ParseInt n of
           Some i \<Rightarrow> Inr (VInt i)
         | None \<Rightarrow> Inl (UnmarshalTypeError (''number '' @ n) t))
      else Inl (UnmarshalTypeError ''number'' t))"
| "decode_into du t (JString s) cur =
     (if t = TString then Inr (VString s) else Inl (UnmarshalTypeError ''string'' t))"
| "decode_into du t (JArray es) cur = Inl (UnmarshalTypeError ''array'' t)"
| "decode_into du t (JObject ms) cur =
     (case t of
        TStruct fs \<Rightarrow>
          (case decode_members du fs ms (struct_fields cur fs) of
             Inl e \<Rightarrow> Inl e
           | Inr vals \<Rightarrow> Inr (VStruct vals))
      | _ \<Rightarrow> Inl (UnmarshalTypeError ''object'' t))"
| "decode_members du fs [] vals = Inr vals"
| "decode_members du fs ((key, v) # ms) vals =
     (case find_field fs key of
        None \<Rightarrow> if du then Inl (UnknownField key) else decode_members du fs ms vals
      | Some (n, t) \<Rightarrow>
          (case decode_into du t v (field_value vals n t) of
             Inl e \<Rightarrow> Inl e
           | Inr x \<Rightarrow> decode_members du fs ms (set_field vals n x)))"

text \<open>
  \<open>Decoder.Decode\<close> into a fresh value of type \<open>t\<close>: the decoded value and the unread input,
  or the error. \<open>io.EOF\<close> when there is nothing but white space.
\<close>

definition Decode :: "bool \<Rightarrow> go_type \<Rightarrow> string \<Rightarrow> json_error + (go_value \<times> string)" where
  "Decode du t data =
     (if dropWhile isSpace data = [] then Inl JsonEOF
      else case readValue data of
             None \<Rightarrow> Inl JsonSyntaxError
           | Some (j, rest) \<Rightarrow>
               (case decode_into du t j (zero_value t) of
                  Inl e \<Rightarrow> Inl e
                | Inr v \<Rightarrow> Inr (v, rest)))"

text \<open>
  \<open>Decoder.More\<close> on the unread input: the next byte that is not white space exists and is
  neither \<open>]\<close> nor \<open>}\<close>.
\<close>

definition More :: "string \<Rightarrow> bool" where
  "More rest =
     (case dropWhile isSpace rest of
        [] \<Rightarrow> False
      | c # _ \<Rightarrow> c \<noteq> CHR '']'' \<and> c \<noteq> CHR ''}'')"

section \<open>Schema (schema.go)\<close>

record Schema =
  targetType :: go_type
  strict :: bool

text \<open>
  What \<open>reflect.TypeOf\<close> tells \<open>NewSchema\<close> about its argument: a pointer to some type, or a
  type that is no pointer. \<open>None\<close> is the nil interface value.
\<close>

datatype rtype = Ptr rtype | Plain go_type

fun NewSchema :: "rtype option \<Rightarrow> err + Schema" where
  "NewSchema None = Inl ErrInvalidSchema"
| "NewSchema (Some (Plain t)) = Inl (ErrWrap ''%w: got %v, want pointer'' ErrInvalidSchema)"
| "NewSchema (Some (Ptr (Plain (TStruct fs)))) = Inr \<lparr>targetType = TStruct fs, strict = True\<rparr>"
| "NewSchema (Some (Ptr elem)) =
     Inl (ErrWrap ''%w: got pointer to %v, want struct'' ErrInvalidSchema)"

definition WithStrict :: "Schema \<Rightarrow> bool \<Rightarrow> Schema" where
  "WithStrict s b = s\<lparr>strict := b\<rparr>"

definition IsStrict :: "Schema \<Rightarrow> bool" where
  "IsStrict s = strict s"

definition Unmarshal :: "Schema \<Rightarrow> string \<Rightarrow> err + go_value" where
  "Unmarshal s data =
     (case Decode (strict s) (targetType s) data of
        Inl e \<Rightarrow> Inl (ErrWrap ''failed to unmarshal JSON: %w'' (ErrJSON e))
      | Inr (v, rest) \<Rightarrow>
          if More rest then Inl (ErrNew ''trailing data after JSON'') else Inr v)"

definition Validate_schema :: "Schema \<Rightarrow> string \<Rightarrow> err option" where
  "Validate_schema s data = (case Unmarshal s data of Inl e \<Rightarrow> Some e | Inr v \<Rightarrow> None)"

text \<open>
  The vocabulary of the claims about unknown fields. \<open>has_unknown t j\<close>: the JSON value \<open>j\<close>,
  read against the struct type \<open>t\<close>, holds an object key that matches no field of the
  struct it is decoded into, at the top or inside a nested struct. \<open>strip_unknown t j\<close> is
  \<open>j\<close> without the members of such keys.
\<close>

fun has_unknown :: "go_type \<Rightarrow> json \<Rightarrow> bool"
  and has_unknown_member :: "(string \<times> go_type) list \<Rightarrow> (string \<times> json) list \<Rightarrow> bool" where
  "has_unknown t (JObject ms) =
     (case t of TStruct fs \<Rightarrow> has_unknown_member fs ms | _ \<Rightarrow> False)"
| "has_unknown t JNull = False"
| "has_unknown t (JBool b) = False"
| "has_unknown t (JNumber n) = False"
| "has_unknown t (JString s) = False"
| "has_unknown t (JArray es) = False"
| "has_unknown_member fs [] = False"
| "has_unknown_member fs ((key, v) # ms) =
     (case find_field fs key of
        None \<Rightarrow> True
      | Some (n, t) \<Rightarrow> has_unknown t v \<or> has_unknown_member fs ms)"

fun strip_unknown :: "go_type \<Rightarrow> json \<Rightarrow> json"
  and strip_members :: "(string \<times> go_type) list \<Rightarrow> (string \<times> json) list \<Rightarrow> (string \<times> json) list" where
  "strip_unknown t (JObject ms) =
     (case t of TStruct fs \<Rightarrow> JObject (strip_members fs ms) | _ \<Rightarrow> JObject ms)"
| "strip_unknown t JNull = JNull"
| "strip_unknown t (JBool b) = JBool b"
| "strip_unknown t (JNumber n) = JNumber n"
| "strip_unknown t (JString s) = JString s"
| "strip_unknown t (JArray es) = JArray es"
| "strip_members fs [] = []"
| "strip_members fs ((key, v) # ms) =
     (case find_field fs key of
        None \<Rightarrow> strip_members fs ms
      | Some (n, t) \<Rightarrow> (key, strip_unknown t v) # strip_members fs ms)"

text \<open>The descriptor of section 8 of the spec, which expects only \<open>name\<close>.\<close>

definition name_schema :: "bool \<Rightarrow> Schema" where
  "name_schema b = \<lparr>targetType = TStruct [(''name'', TString)], strict = b\<rparr>"

text \<open>
  The vocabulary of the lemmas about the scanner: the look-ahead of \<open>unicode_escape\<close> for the
  second half of a surrogate pair, the kinds of tokens and values, and what a step of the
  scanner may return: on a number token only a number, at the top level, and otherwise a
  finished array or object; a stack that is not empty when scanning goes on.
\<close>

definition lookahead :: "string \<Rightarrow> nat option" where
  "lookahead rest =
     (if take 2 rest = [CHR 0x5C, CHR ''u''] then getu4 (drop 2 rest) else None)"

fun isTokNumber :: "token \<Rightarrow> bool" where
  "isTokNumber (TokNumber n) = True"
| "isTokNumber t = False"

fun isJNumber :: "json \<Rightarrow> bool" where
  "isJNumber (JNumber n) = True"
| "isJNumber j = False"

fun isContainer :: "json \<Rightarrow> bool" where
  "isContainer (JArray es) = True"
| "isContainer (JObject ms) = True"
| "isContainer j = False"

definition sound_result :: "frame list \<Rightarrow> token \<Rightarrow> step_result \<Rightarrow> bool" where
  "sound_result st t res =
     (case res of
        Fail \<Rightarrow> True
      | Next st' m' \<Rightarrow> st' \<noteq> []
      | Done v \<Rightarrow> (st = [] \<and> (isJNumber v \<longleftrightarrow> isTokNumber t))
                  \<or> (isContainer v \<and> \<not> isTokNumber t))"

section \<open>Schema objects in memory\<close>

text \<open>
  \<open>Unmarshal\<close> is a method on \<open>*Schema\<close>: it reads the schema object through a pointer,
  allocates the target with \<open>reflect.New\<close>, lets the decoder fill it, and returns the pointer.
  Here the memory is explicit: the schema objects and the allocated values, by address, and
  the address the next allocation returns. A nil or dangling receiver is a panic. When
  decoding fails no pointer is returned and nothing can read the cell, which the model
  leaves as allocated.
\<close>

record memory =
  schema_at :: "nat \<Rightarrow> Schema option"
  value_at :: "nat \<Rightarrow> go_value option"
  next_free :: nat

definition reflect_New :: "go_type \<Rightarrow> memory \<Rightarrow> nat \<times> memory" where
  "reflect_New t m =
     (next_free m,
      m\<lparr>value_at := (value_at m)(next_free m \<mapsto> zero_value t), next_free := Suc (next_free m)\<rparr>)"

definition Schema_WithStrict :: "nat \<Rightarrow> bool \<Rightarrow> memory \<Rightarrow> err option \<times> memory" where
  "Schema_WithStrict sp b m =
     (case schema_at m sp of
        None \<Rightarrow> (Some Panic, m)
      | Some s \<Rightarrow> (None, m\<lparr>schema_at := (schema_at m)(sp \<mapsto> s\<lparr>strict := b\<rparr>)\<rparr>))"

definition Schema_Unmarshal :: "nat \<Rightarrow> string \<Rightarrow> memory \<Rightarrow> (err + nat) \<times> memory" where
  "Schema_Unmarshal sp data m =
     (case schema_at m sp of
        None \<Rightarrow> (Inl Panic, m)
      | Some s \<Rightarrow>
          (case reflect_New (targetType s) m of
             (ptr, m1) \<Rightarrow>
               (case Decode (strict s) (targetType s) data of
                  Inl e \<Rightarrow> (Inl (ErrWrap ''failed to unmarshal JSON: %w'' (ErrJSON e)), m1)
                | Inr (v, rest) \<Rightarrow>
                    (let m2 = m1\<lparr>value_at := (value_at m1)(ptr \<mapsto> v)\<rparr>
                     in if More rest then (Inl (ErrNew ''trailing data after JSON''), m2)
                        else (Inr ptr, m2)))))"

text \<open>What the caller of \<open>Unmarshal\<close> can see: the error, or the value behind the pointer.\<close>

definition outcome :: "(err + nat) \<times> memory \<Rightarrow> err + go_value option" where
  "outcome res = (case fst res of Inl e \<Rightarrow> Inl e | Inr p \<Rightarrow> Inr (value_at (snd res) p))"

section \<open>Collaborators (client.go, detector.go, validator.go)\<close>

text \<open>
  The injected collaborators. What a client or a validator answers may differ from one call
  to the next, so each takes, besides the context and the text, the attempt (0-indexed)
  during which it is called; a run calls each at most once per attempt. Detectors are called
  once per run, before the first attempt. \<open>None\<close> is a nil error.
\<close>

type_synonym Client = "int \<Rightarrow> Context \<Rightarrow> string \<Rightarrow> err + string"

record Detector =
  Detector_Name :: string
  Detect :: "Context \<Rightarrow> string \<Rightarrow> err option"

record Validator =
  Validator_Name :: string
  Validator_Validate :: "int \<Rightarrow> Context \<Rightarrow> string \<Rightarrow> err option"

section \<open>Guard (railguard.go)\<close>

record Guard =
  client :: "Client option"
  detectors :: "Detector list"
  validators :: "Validator list"
  schema :: "Schema option"
  retry :: RetryConfig
  timeout :: int
  strictSchema :: bool

record Metadata =
  Attempts :: int
  Duration :: int

record Result =
  Raw :: string
  Parsed :: "go_value option"
  Metadata :: Metadata

text \<open>
  The calls a run makes, in order. The log is not part of the program: it is what a test
  double with a call counter would record.
\<close>

datatype event =
    Detect_call string
  | Backoff_call int
  | Generate_call int
  | Validate_call int string

definition after :: "event list \<Rightarrow> 'a \<times> event list \<Rightarrow> 'a \<times> event list" where
  "after evs r = (fst r, evs @ snd r)"

fun runDetectors :: "Detector list \<Rightarrow> Context \<Rightarrow> string \<Rightarrow> err option \<times> event list" where
  "runDetectors [] ctx prompt = (None, [])"
| "runDetectors (detector # ds) ctx prompt =
     (case Detect detector ctx prompt of
        Some e \<Rightarrow>
          (Some (DetectionError (Detector_Name detector) (Some e)),
           [Detect_call (Detector_Name detector)])
      | None \<Rightarrow> after [Detect_call (Detector_Name detector)] (runDetectors ds ctx prompt))"

fun runValidators :: "Validator list \<Rightarrow> int \<Rightarrow> Context \<Rightarrow> string \<Rightarrow> err option \<times> event list" where
  "runValidators [] attempt ctx output = (None, [])"
| "runValidators (validator # vs) attempt ctx output =
     (case Validator_Validate validator attempt ctx output of
        Some e \<Rightarrow>
          (Some (ValidationError (Validator_Name validator) (Some e)),
           [Validate_call attempt (Validator_Name validator)])
      | None \<Rightarrow>
          after [Validate_call attempt (Validator_Name validator)]
            (runValidators vs attempt ctx output))"

definition parseSchema :: "Guard \<Rightarrow> string \<Rightarrow> err + go_value option" where
  "parseSchema g output =
     (case schema g of
        None \<Rightarrow> Inr None
      | Some s \<Rightarrow> (case Unmarshal s output of Inl e \<Rightarrow> Inl e | Inr v \<Rightarrow> Inr (Some v)))"

text \<open>
  The retry loop of \<open>Run\<close>, from the iteration \<open>attempt\<close> on, with the current \<open>lastErr\<close>.
  A guard without a client panics at the call of \<open>Generate\<close>.
\<close>

function retry_loop ::
  "Guard \<Rightarrow> world \<Rightarrow> Context \<Rightarrow> string \<Rightarrow> int \<Rightarrow> err option \<Rightarrow> (err + Result) \<times> event list" where
  "retry_loop g w ctx prompt attempt lastErr =
     (if attempt < MaxAttempts (retry g) then
        (case (if attempt > 0 then backoff (retry g) w ctx attempt else None) of
           Some e \<Rightarrow> (Inl e, [Backoff_call attempt])
         | None \<Rightarrow>
             after (if attempt > 0 then [Backoff_call attempt] else [])
               (case client g of
                  None \<Rightarrow> (Inl Panic, [])
                | Some c \<Rightarrow>
                    after [Generate_call attempt]
                      (case c attempt ctx prompt of
                         Inl e \<Rightarrow>
                           (let lastErr = GenerationError (Some e)
                            in if \<not> shouldRetry (Some lastErr) then (Inl lastErr, [])
                               else retry_loop g w ctx prompt (attempt + 1) (Some lastErr))
                       | Inr output \<Rightarrow>
                           (case runValidators (validators g) attempt ctx output of
                              (Some e, evs) \<Rightarrow>
                                after evs
                                  (let lastErr = e
                                   in if \<not> shouldRetry (Some lastErr) then (Inl lastErr, [])
                                      else retry_loop g w ctx prompt (attempt + 1) (Some lastErr))
                            | (None, evs) \<Rightarrow>
                                after evs
                                  (case parseSchema g output of
                                     Inl e \<Rightarrow>
                                       (let lastErr = SchemaError (Some e)
                                        in if \<not> shouldRetry (Some lastErr) then (Inl lastErr, [])
                                           else retry_loop g w ctx prompt (attempt + 1)
                                                  (Some lastErr))
                                   | Inr parsed \<Rightarrow>
                                       (Inr \<lparr>Raw = output, Parsed = parsed,
                                             Metadata = \<lparr>Attempts = attempt + 1,
                                                          Duration = time_Since w attempt\<rparr>\<rparr>,
                                        []))))))
      else (Inl (MaxRetriesError (MaxAttempts (retry g)) lastErr), []))"
  by pat_completeness auto
termination
  by (relation "measure (\<lambda>(g, w, ctx, prompt, attempt, lastErr). nat (MaxAttempts (retry g) - attempt))")
    auto

declare retry_loop.simps [simp del]

text \<open>The context under which a run works: the caller's, under the timeout if one is set.\<close>

definition run_context :: "Guard \<Rightarrow> Context \<Rightarrow> Context" where
  "run_context g ctx = (if timeout g > 0 then context_WithTimeout ctx (timeout g) else ctx)"

definition Run :: "Guard \<Rightarrow> world \<Rightarrow> Context \<Rightarrow> string \<Rightarrow> (err + Result) \<times> event list" where
  "Run g w ctx prompt =
     (let ctx = run_context g ctx
      in case runDetectors (detectors g) ctx prompt of
           (Some e, evs) \<Rightarrow> (Inl e, evs)
         | (None, evs) \<Rightarrow> after evs (retry_loop g w ctx prompt 0 None))"

text \<open>
  What one attempt comes to, read off the three stages of the loop body: the wrapped failure
  of the first stage that fails, or the raw output and the decoded value. This is the
  vocabulary of the claims about attempts; the loop above does not use it.
\<close>

definition attempt_outcome ::
  "Guard \<Rightarrow> Context \<Rightarrow> string \<Rightarrow> int \<Rightarrow> err + (string \<times> go_value option)" where
  "attempt_outcome g ctx prompt attempt =
     (case client g of
        None \<Rightarrow> Inl Panic
      | Some c \<Rightarrow>
          (case c attempt ctx prompt of
             Inl e \<Rightarrow> Inl (GenerationError (Some e))
           | Inr output \<Rightarrow>
               (case fst (runValidators (validators g) attempt ctx output) of
                  Some e \<Rightarrow> Inl e
                | None \<Rightarrow>
                    (case parseSchema g output of
                       Inl e \<Rightarrow> Inl (SchemaError (Some e))
                     | Inr parsed \<Rightarrow> Inr (output, parsed)))))"

section \<open>Options (options.go) and New\<close>

text \<open>
  An \<open>Option\<close> is a function on the guard under construction; the constructors of
  options.go are the values of this type. A nil client, detector or validator is \<open>None\<close>.
\<close>

datatype Option =
    WithClient "Client option"
  | WithSchema "rtype option"
  | WithDetectors "Detector option list"
  | WithValidators "Validator option list"
  | WithRetry RetryConfig
  | WithMaxRetries int
  | WithTimeout int
  | WithStrictSchema bool

fun apply_option :: "Option \<Rightarrow> Guard \<Rightarrow> err + Guard" where
  "apply_option (WithClient c) g =
     (if c = None then Inl ErrNilClient else Inr (g\<lparr>client := c\<rparr>))"
| "apply_option (WithSchema v) g =
     (case NewSchema v of
        Inl e \<Rightarrow> Inl e
      | Inr s \<Rightarrow> Inr (g\<lparr>schema := Some s\<rparr>))"
| "apply_option (WithDetectors ds) g =
     (case those ds of
        None \<Rightarrow> Inl ErrNilDetector
      | Some xs \<Rightarrow> Inr (g\<lparr>detectors := detectors g @ xs\<rparr>))"
| "apply_option (WithValidators vs) g =
     (case those vs of
        None \<Rightarrow> Inl ErrNilValidator
      | Some xs \<Rightarrow> Inr (g\<lparr>validators := validators g @ xs\<rparr>))"
| "apply_option (WithRetry config) g =
     (if Validate config \<noteq> None then Inl ErrInvalidRetryConfig else Inr (g\<lparr>retry := config\<rparr>))"
| "apply_option (WithMaxRetries maxRetries) g =
     (if maxRetries < 1 then Inl ErrInvalidRetryConfig
      else Inr (g\<lparr>retry := (retry g)\<lparr>MaxAttempts := maxRetries\<rparr>\<rparr>))"
| "apply_option (WithTimeout t) g =
     (if t < 0 then Inl ErrInvalidTimeout else Inr (g\<lparr>timeout := t\<rparr>))"
| "apply_option (WithStrictSchema b) g =
     Inr (g\<lparr>schema := (case schema g of None \<Rightarrow> None | Some s \<Rightarrow> Some (WithStrict s b)),
            strictSchema := b\<rparr>)"

fun apply_options :: "Option list \<Rightarrow> Guard \<Rightarrow> err + Guard" where
  "apply_options [] g = Inr g"
| "apply_options (opt # opts) g =
     (case apply_option opt g of
        Inl e \<Rightarrow> Inl e
      | Inr g' \<Rightarrow> apply_options opts g')"

definition New :: "Option list \<Rightarrow> err + Guard" where
  "New opts =
     (case apply_options opts
             \<lparr>client = None, detectors = [], validators = [], schema = None,
              retry = DefaultRetryConfig, timeout = 0, strictSchema = False\<rparr> of
        Inl e \<Rightarrow> Inl e
      | Inr g \<Rightarrow>
          if client g = None then Inl ErrNoClient
          else let g = (if schema g \<noteq> None \<and> \<not> strictSchema g then g else g)
               in Inr g)"

section \<open>Test doubles\<close>

text \<open>
  The collaborators of the scenario in section 8 of the spec and of the tests in
  railguard_test.go: a detector that rejects a prompt containing "ignore previous", a
  validator that requires the output to be one JSON value, a validator that rejects
  everything, and a client that answers \<open>not json\<close> first and \<open>{"ok":true}\<close> afterwards. In
  \<open>quiet_world\<close> the context never ends during a wait.
\<close>

fun contains :: "string \<Rightarrow> string \<Rightarrow> bool" where
  "contains needle [] = (needle = [])"
| "contains needle (c # cs) = (take (length needle) (c # cs) = needle \<or> contains needle cs)"

definition keyword_detector :: Detector where
  "keyword_detector =
     \<lparr>Detector_Name = ''keywords'',
      Detect = (\<lambda>ctx prompt. if contains ''ignore previous'' prompt
                              then Some (ErrNew ''prompt blocked'') else None)\<rparr>"

definition json_validator :: Validator where
  "json_validator =
     \<lparr>Validator_Name = ''json'',
      Validator_Validate = (\<lambda>attempt ctx output.
        case readValue output of
          None \<Rightarrow> Some (ErrNew ''invalid JSON'')
        | Some (j, rest) \<Rightarrow>
            if dropWhile isSpace rest = [] then None else Some (ErrNew ''invalid JSON''))\<rparr>"

definition rejecting_validator :: Validator where
  "rejecting_validator =
     \<lparr>Validator_Name = ''custom'',
      Validator_Validate = (\<lambda>attempt ctx output. Some (ErrNew ''validation failed''))\<rparr>"

definition stub_client :: Client where
  \<open>stub_client = (\<lambda>attempt ctx prompt. if attempt = 0 then Inr ''not json'' else Inr ''{"ok":true}'')\<close>

definition quiet_world :: world where
  "quiet_world =
     \<lparr>rand_Float64 = (\<lambda>attempt. Finite 0), ctx_Done_first = (\<lambda>ctx attempt d. None),
      time_Since = (\<lambda>attempt. 0)\<rparr>"

definition scenario_guard :: Guard where
  "scenario_guard =
     \<lparr>client = Some stub_client, detectors = [keyword_detector], validators = [json_validator],
      schema = None, retry = DefaultRetryConfig\<lparr>MaxAttempts := 2\<rparr>, timeout = 0,
      strictSchema = False\<rparr>"

definition rejecting_guard :: Guard where
  "rejecting_guard = scenario_guard\<lparr>validators := [rejecting_validator]\<rparr>"

section \<open>Properties of the float64 operations\<close>

lemma pow2_powr: "pow2 k = 2 powr (real_of_int k)"
  by (simp add: pow2_def powr_real_of_int inverse_eq_divide)

lemma pow2_pos [simp]: "0 < pow2 k"
  by (simp add: pow2_powr)

lemma pow2_nonneg [simp]: "0 \<le> pow2 k"
  using pow2_pos [of k] by linarith

lemma pow2_neq0 [simp]: "pow2 k \<noteq> 0"
  using pow2_pos [of k] by linarith

lemma pow2_add: "pow2 (a + b) = pow2 a * pow2 b"
  by (simp add: pow2_powr powr_add)

lemma pow2_diff: "pow2 (a - b) = pow2 a / pow2 b"
  by (simp add: pow2_powr powr_diff)

lemma pow2_mono: "a \<le> b \<Longrightarrow> pow2 a \<le> pow2 b"
  by (simp add: pow2_powr)

lemma pow2_less_iff: "pow2 a < pow2 b \<longleftrightarrow> a < b"
  by (simp add: pow2_powr)

lemma pow2_nat: "pow2 (int n) = 2 ^ n"
  by (simp add: pow2_def)

lemma pow2_numeral: "pow2 (numeral n) = 2 ^ numeral n"
  by (simp add: pow2_def)

lemma pow2_neg_numeral: "pow2 (- numeral n) = 1 / 2 ^ numeral n"
  by (simp add: pow2_def)

lemma pow2_0 [simp]: "pow2 0 = 1"
  by (simp add: pow2_def)

lemma pow2_1 [simp]: "pow2 1 = 2"
  by (simp add: pow2_def)

lemma pow2_Suc: "pow2 (k + 1) = pow2 k * 2"
  by (simp add: pow2_add)

lemma pow2_int: "0 \<le> k \<Longrightarrow> pow2 k = real_of_int (2 ^ nat k)"
  by (simp add: pow2_def)

lemma round_half_even_int [simp]: "round_half_even (real_of_int n) = n"
  by (simp add: round_half_even_def)

lemma round_half_even_err: "\<bar>real_of_int (round_half_even q) - q\<bar> \<le> 1 / 2"
proof -
  have "real_of_int \<lfloor>q\<rfloor> \<le> q" "q < real_of_int \<lfloor>q\<rfloor> + 1" by linarith+
  then show ?thesis by (auto simp: round_half_even_def Let_def)
qed

lemma round_half_even_nonneg: "0 \<le> q \<Longrightarrow> 0 \<le> round_half_even q"
  by (auto simp: round_half_even_def Let_def)

lemma binade_ge: "- 1022 \<le> binade x"
  by (simp add: binade_def)

lemma binade_le:
  assumes "x \<noteq> 0" and "\<bar>x\<bar> \<le> pow2 k" and "- 1022 \<le> k"
  shows "binade x \<le> k"
proof -
  from assms(1) have "0 < \<bar>x\<bar>" by simp
  with assms(2) have "log 2 \<bar>x\<bar> \<le> real_of_int k"
    by (simp add: pow2_powr log_le_iff)
  then have "\<lfloor>log 2 \<bar>x\<bar>\<rfloor> \<le> k" by (simp add: floor_le_iff)
  with assms(3) show ?thesis by (simp add: binade_def)
qed

lemma floor_log_bounds:
  assumes "x \<noteq> 0"
  shows "pow2 \<lfloor>log 2 \<bar>x\<bar>\<rfloor> \<le> \<bar>x\<bar>" and "\<bar>x\<bar> < pow2 (\<lfloor>log 2 \<bar>x\<bar>\<rfloor> + 1)"
proof -
  from assms have p: "0 < \<bar>x\<bar>" by simp
  have "\<lfloor>log 2 \<bar>x\<bar>\<rfloor> = \<lfloor>log 2 \<bar>x\<bar>\<rfloor>" ..
  with p have "2 powr real_of_int \<lfloor>log 2 \<bar>x\<bar>\<rfloor> \<le> \<bar>x\<bar>
      \<and> \<bar>x\<bar> < 2 powr real_of_int (\<lfloor>log 2 \<bar>x\<bar>\<rfloor> + 1)"
    using floor_log_eq_powr_iff [of "\<bar>x\<bar>" 2 "\<lfloor>log 2 \<bar>x\<bar>\<rfloor>"] by simp
  then show "pow2 \<lfloor>log 2 \<bar>x\<bar>\<rfloor> \<le> \<bar>x\<bar>" and "\<bar>x\<bar> < pow2 (\<lfloor>log 2 \<bar>x\<bar>\<rfloor> + 1)"
    by (simp_all add: pow2_powr)
qed

lemma binade_upper:
  assumes "x \<noteq> 0"
  shows "\<bar>x\<bar> < pow2 (binade x + 1)"
proof -
  have "pow2 (\<lfloor>log 2 \<bar>x\<bar>\<rfloor> + 1) \<le> pow2 (binade x + 1)"
    by (rule pow2_mono) (simp add: binade_def)
  with floor_log_bounds(2) [OF assms] show ?thesis by linarith
qed

lemma binade_normal:
  assumes "pow2 (- 1022) \<le> \<bar>x\<bar>"
  shows "binade x = \<lfloor>log 2 \<bar>x\<bar>\<rfloor>" and "pow2 (binade x) \<le> \<bar>x\<bar>"
proof -
  have x: "x \<noteq> 0"
  proof
    assume "x = 0"
    with assms have "pow2 (- 1022) \<le> 0" by simp
    with pow2_pos [of "- 1022"] show False by linarith
  qed
  have "pow2 (- 1022) < pow2 (\<lfloor>log 2 \<bar>x\<bar>\<rfloor> + 1)"
    using assms floor_log_bounds(2) [OF x] by linarith
  then have "- 1022 < \<lfloor>log 2 \<bar>x\<bar>\<rfloor> + 1" by (simp only: pow2_less_iff)
  then have "- 1022 \<le> \<lfloor>log 2 \<bar>x\<bar>\<rfloor>" by simp
  then show b: "binade x = \<lfloor>log 2 \<bar>x\<bar>\<rfloor>" by (simp add: binade_def)
  show "pow2 (binade x) \<le> \<bar>x\<bar>" using floor_log_bounds(1) [OF x] by (simp add: b)
qed

lemma nearest_0 [simp]: "nearest 0 = 0"
  by (simp add: nearest_def)

lemma nearest_err_ulp: "\<bar>nearest x - x\<bar> \<le> pow2 (binade x - 53)"
proof (cases "x = 0")
  case True
  then show ?thesis by simp
next
  case False
  define u where "u = pow2 (binade x - 52)"
  have u: "0 < u" by (simp add: u_def)
  have n: "nearest x = real_of_int (round_half_even (x / u)) * u"
    using False by (simp add: nearest_def u_def Let_def)
  have "nearest x - x = (real_of_int (round_half_even (x / u)) - x / u) * u"
    using u by (simp add: n algebra_simps)
  then have "\<bar>nearest x - x\<bar> = \<bar>real_of_int (round_half_even (x / u)) - x / u\<bar> * u"
    using u by (simp add: abs_mult)
  also have "\<dots> \<le> 1 / 2 * u"
    using u round_half_even_err [of "x / u"] by (intro mult_right_mono) simp_all
  also have "\<dots> = pow2 (binade x - 53)"
  proof -
    have "pow2 (binade x - 52) = pow2 ((binade x - 53) + 1)" by simp
    also have "\<dots> = pow2 (binade x - 53) * 2" by (rule pow2_Suc)
    finally show ?thesis by (simp add: u_def)
  qed
  finally show ?thesis .
qed

lemma nearest_abs_err:
  assumes "\<bar>x\<bar> \<le> pow2 k" and "- 1022 \<le> k"
  shows "\<bar>nearest x - x\<bar> \<le> pow2 (k - 53)"
proof (cases "x = 0")
  case True
  then show ?thesis by simp
next
  case False
  then have "binade x \<le> k" using assms by (rule binade_le)
  then have "pow2 (binade x - 53) \<le> pow2 (k - 53)" by (intro pow2_mono) simp
  with nearest_err_ulp [of x] show ?thesis by linarith
qed

lemma nearest_rel_err:
  assumes "pow2 (- 1022) \<le> \<bar>x\<bar>"
  shows "\<bar>nearest x - x\<bar> \<le> \<bar>x\<bar> / 2 ^ 53"
proof -
  have "pow2 (binade x - 53) = pow2 (binade x) / 2 ^ 53"
    by (simp add: pow2_diff pow2_numeral)
  also have "\<dots> \<le> \<bar>x\<bar> / 2 ^ 53"
    using binade_normal(2) [OF assms] by (simp add: divide_right_mono)
  finally show ?thesis using nearest_err_ulp [of x] by linarith
qed

lemma nearest_nonneg:
  assumes "0 \<le> x"
  shows "0 \<le> nearest x"
proof (cases "x = 0")
  case True
  then show ?thesis by simp
next
  case False
  have "0 \<le> x / pow2 (binade x - 52)" using assms by simp
  then have "0 \<le> round_half_even (x / pow2 (binade x - 52))" by (rule round_half_even_nonneg)
  with False show ?thesis by (simp add: nearest_def Let_def)
qed

lemma nearest_representable:
  assumes "representable x"
  shows "nearest x = x"
proof (cases "x = 0")
  case True
  then show ?thesis by simp
next
  case False
  from assms obtain m k where x: "x = real_of_int m * pow2 k" and m: "\<bar>m\<bar> < 2 ^ 53"
    and k: "- 1074 \<le> k" by (auto simp: representable_def)
  define e where "e = binade x"
  have le: "e - 52 \<le> k"
  proof (rule ccontr)
    assume "\<not> e - 52 \<le> k"
    then have ek: "k + 53 \<le> e" by simp
    with k have "- 1022 < e" by simp
    then have "e = \<lfloor>log 2 \<bar>x\<bar>\<rfloor>" by (simp add: e_def binade_def max_def split: if_splits)
    with floor_log_bounds(1) [OF False] have "pow2 e \<le> \<bar>x\<bar>" by simp
    also have "\<bar>x\<bar> = real_of_int \<bar>m\<bar> * pow2 k" by (simp add: x abs_mult)
    also have "\<dots> < 2 ^ 53 * pow2 k"
    proof -
      from m have "real_of_int \<bar>m\<bar> < real_of_int (2 ^ 53)" by (simp only: of_int_less_iff)
      then show ?thesis by simp
    qed
    also have "\<dots> = pow2 (k + 53)" by (simp add: pow2_add pow2_numeral)
    finally have "e < k + 53" by (simp add: pow2_less_iff)
    with ek show False by simp
  qed
  have "x / pow2 (e - 52) = real_of_int m * pow2 (k - (e - 52))"
    by (simp add: x pow2_diff)
  also have "pow2 (k - (e - 52)) = real_of_int (2 ^ nat (k - (e - 52)))"
    using le by (intro pow2_int) simp
  finally have q: "x / pow2 (e - 52) = real_of_int (m * 2 ^ nat (k - (e - 52)))" by simp
  have "nearest x = real_of_int (round_half_even (x / pow2 (e - 52))) * pow2 (e - 52)"
    using False by (simp add: nearest_def e_def Let_def)
  also have "\<dots> = x / pow2 (e - 52) * pow2 (e - 52)"
    by (simp only: q round_half_even_int)
  also have "\<dots> = x" by simp
  finally show ?thesis .
qed

lemma representable_bound:
  assumes "representable x"
  shows "\<bar>x\<bar> < 2 ^ 1024"
proof -
  from assms obtain m k where x: "x = real_of_int m * pow2 k" and m: "\<bar>m\<bar> < 2 ^ 53"
    and k: "k \<le> 971" by (auto simp: representable_def)
  from m have "real_of_int \<bar>m\<bar> < real_of_int (2 ^ 53)" by (simp only: of_int_less_iff)
  then have "\<bar>x\<bar> < 2 ^ 53 * pow2 k" by (simp add: x abs_mult)
  also have "\<dots> \<le> 2 ^ 53 * pow2 971" using k by (simp add: pow2_mono)
  also have "\<dots> = 2 ^ 1024" by (simp add: pow2_numeral)
  finally show ?thesis .
qed

lemma round64_representable:
  assumes "representable x"
  shows "round64 x = Finite x"
proof -
  from representable_bound [OF assms] have "\<not> 2 ^ 1024 \<le> x" "\<not> x \<le> - (2 ^ 1024)" by linarith+
  then show ?thesis by (simp add: round64_def nearest_representable [OF assms])
qed

lemma round64_abs_err:
  assumes "\<bar>x\<bar> \<le> pow2 k" and "- 1022 \<le> k" and "k \<le> 1000"
  shows "\<exists>y. round64 x = Finite y \<and> \<bar>y - x\<bar> \<le> pow2 (k - 53) \<and> (0 \<le> x \<longrightarrow> 0 \<le> y)"
proof -
  have e: "\<bar>nearest x - x\<bar> \<le> pow2 (k - 53)" using assms(1,2) by (rule nearest_abs_err)
  have "pow2 (k - 53) \<le> pow2 k" by (rule pow2_mono) simp
  with e assms(1) have "\<bar>nearest x\<bar> \<le> 2 * pow2 k" by linarith
  also have "\<dots> \<le> 2 * pow2 1000" using assms(3) by (simp add: pow2_mono)
  also have "\<dots> < 2 ^ 1024" by (simp add: pow2_numeral)
  finally have "\<bar>nearest x\<bar> < 2 ^ 1024" .
  then have "\<not> 2 ^ 1024 \<le> nearest x" "\<not> nearest x \<le> - (2 ^ 1024)" by linarith+
  then have "round64 x = Finite (nearest x)" by (simp add: round64_def Let_def)
  with e nearest_nonneg [of x] show ?thesis by simp
qed

lemma representable_int:
  assumes "\<bar>i\<bar> < 2 ^ 53"
  shows "representable (real_of_int i)"
  unfolding representable_def
proof (intro exI conjI)
  show "real_of_int i = real_of_int i * pow2 0" by simp
qed (use assms in simp_all)

lemma representable_half:
  assumes "\<bar>i\<bar> < 2 ^ 53"
  shows "representable (real_of_int i / 2)"
  unfolding representable_def
proof (intro exI conjI)
  show "real_of_int i / 2 = real_of_int i * pow2 (- 1)" by (simp add: pow2_def)
qed (use assms in simp_all)

lemma representable_double:
  assumes "representable x" and "\<bar>x\<bar> < 1"
  shows "representable (x * 2)"
proof -
  from assms(1) obtain m k where x: "x = real_of_int m * pow2 k" and m: "\<bar>m\<bar> < 2 ^ 53"
    and k: "- 1074 \<le> k" "k \<le> 971" by (auto simp: representable_def)
  show ?thesis
  proof (cases "m = 0")
    case True
    with x have "x * 2 = real_of_int 0" by simp
    also have "representable \<dots>" by (rule representable_int) simp
    finally show ?thesis .
  next
    case False
    then have "1 \<le> \<bar>m\<bar>" by linarith
    then have "1 \<le> real_of_int \<bar>m\<bar>" by (simp only: of_int_1_le_iff)
    then have "1 * pow2 k \<le> real_of_int \<bar>m\<bar> * pow2 k" by (intro mult_right_mono) simp_all
    also have "\<dots> = \<bar>x\<bar>" by (simp add: x abs_mult)
    also have "\<dots> < pow2 0" using assms(2) by simp
    finally have "k < 0" by (simp only: pow2_less_iff mult_1)
    have "x * 2 = real_of_int m * pow2 (k + 1)" by (simp add: x pow2_Suc)
    with m k \<open>k < 0\<close> show ?thesis unfolding representable_def by (intro exI [of _ m] exI [of _ "k + 1"]) simp
  qed
qed

lemma representable_0: "representable 0"
  using representable_int [of 0] by simp

lemma float64_of_int_exact:
  "\<bar>i\<bar> < 2 ^ 53 \<Longrightarrow> float64_of_int i = Finite (real_of_int i)"
  by (simp add: float64_of_int_def round64_representable representable_int)

lemma float64_of_int_0 [simp]: "float64_of_int 0 = Finite 0"
  using float64_of_int_exact [of 0] by simp

lemma float64_of_int_1 [simp]: "float64_of_int 1 = Finite 1"
  using float64_of_int_exact [of 1] by simp

lemma round64_int: "\<bar>i\<bar> < 2 ^ 53 \<Longrightarrow> round64 (real_of_int i) = Finite (real_of_int i)"
  by (simp add: round64_representable representable_int)

lemma round64_half: "\<bar>i\<bar> < 2 ^ 53 \<Longrightarrow> round64 (real_of_int i / 2) = Finite (real_of_int i / 2)"
  by (simp add: round64_representable representable_half)

subsection \<open>math.Pow\<close>

text \<open>\<open>math.Pow\<close> returns the power without error for the exponents 0 and 1 and the base 1.\<close>

lemma math_Pow_0: "math_Pow x (Finite 0) = Finite 1"
  by (simp add: math_Pow_def)

lemma math_Pow_1: "math_Pow x (Finite 1) = x"
  by (simp add: math_Pow_def)

lemma math_Pow_one: "math_Pow (Finite 1) y = Finite 1"
  by (simp add: math_Pow_def)

lemma math_Pow_exact_first:
  assumes "a = 1 \<or> a = 2 \<or> m = 1"
  shows "math_Pow (Finite m) (float64_of_int (a - 1)) = Finite (m ^ nat (a - 1))"
  using assms by (auto simp: math_Pow_0 math_Pow_1 math_Pow_one)


lemma representable_pow2:
  assumes "- 1074 \<le> k" and "k \<le> 1023"
  shows "representable (pow2 k)"
proof (cases "k \<le> 971")
  case True
  have "pow2 k = real_of_int 1 * pow2 k" by simp
  with assms(1) True show ?thesis unfolding representable_def
    by (intro exI [of _ 1] exI [of _ k]) simp
next
  case False
  define n where "n = nat (k - 971)"
  have n: "n \<le> 52" using assms(2) by (simp add: n_def)
  have "pow2 k = pow2 (int n + 971)" using False by (simp add: n_def)
  also have "\<dots> = real_of_int (2 ^ n) * pow2 971" by (simp only: pow2_add pow2_nat) simp
  finally have e: "pow2 k = real_of_int (2 ^ n) * pow2 971" .
  have "(2::int) ^ n \<le> 2 ^ 52" using n by (intro power_increasing) simp_all
  then have "\<bar>(2::int) ^ n\<bar> < 2 ^ 53" by simp
  with e show ?thesis unfolding representable_def
    by (intro exI [of _ "2 ^ n"] exI [of _ 971]) simp
qed

lemma nearest_pow2: "- 1074 \<le> k \<Longrightarrow> k \<le> 1023 \<Longrightarrow> nearest (pow2 k) = pow2 k"
  by (simp add: nearest_representable representable_pow2)

lemma pow_loop_two:
  assumes "0 \<le> c" and "c + int i \<le> 1074" and "1 \<le> t" and "t * int i \<le> 4095"
  shows "\<exists>c' ae'. pow_loop i (pow2 (- c)) ae (1 / 2) (t + 1) = (pow2 (- c'), ae')
           \<and> 0 \<le> c' \<and> c' \<le> 1074 \<and> ae' - c' = ae - c + t * int i"
  using assms
proof (induction i arbitrary: c ae t rule: less_induct)
  case (less i)
  show ?case
  proof (cases "i = 0")
    case True
    with less.prems show ?thesis by (simp add: pow_loop.simps [of 0])
  next
    case False
    then have i1: "1 \<le> int i" by simp
    have "t * 1 \<le> t * int i" using less.prems(3) i1 by (intro mult_left_mono) simp_all
    with less.prems(4) have t: "t \<le> 4095" by simp
    have q: "nearest (1 / 4) = 1 / 4"
      using nearest_pow2 [of "- 2"] by (simp add: pow2_neg_numeral)
    have h: "pow2 (- c) * (1 / 2) = pow2 (- (c + 1))"
    proof -
      have "pow2 (- c) = pow2 (- (c + 1) + 1)" by simp
      also have "\<dots> = pow2 (- (c + 1)) * 2" by (rule pow2_Suc)
      finally show ?thesis by simp
    qed
    have "nearest (pow2 (- c) * (1 / 2)) = pow2 (- (c + 1))"
      unfolding h using less.prems(1,2) i1 by (intro nearest_pow2) simp_all
    then have nh: "nearest (pow2 (- c) / 2) = pow2 (- c - 1)" by simp
    have d: "int (i div 2) = int i div 2" by simp
    have step0: "pow_loop i (pow2 (- c)) ae (1 / 2) (t + 1) =
                  pow_loop (i div 2) (if odd i then pow2 (- c - 1) else pow2 (- c))
                    (if odd i then ae + (t + 1) else ae) (1 / 2) (1 + 2 * t)"
      using False t less.prems(3)
      by (subst pow_loop.simps) (simp add: q nh Let_def)
    note step = step0 [unfolded add.commute [of 1 "2 * t"]]
    have lt: "i div 2 < i" using False by simp
    have ti: "2 * t * int (i div 2) \<le> t * int i"
    proof -
      have "2 * (int i div 2) \<le> int i" by simp
      then have "t * (2 * (int i div 2)) \<le> t * int i"
        using less.prems(3) by (intro mult_left_mono) simp_all
      then show ?thesis by (simp add: d mult.assoc mult.left_commute)
    qed
    have p4: "2 * t * int (i div 2) \<le> 4095" using ti less.prems(4) by (rule order_trans)
    have p3: "1 \<le> 2 * t" using less.prems(3) by simp
    have p2: "c + 1 + int (i div 2) \<le> 1074" "c + int (i div 2) \<le> 1074"
      using less.prems(2) i1 by simp_all
    have p1: "0 \<le> c + 1" using less.prems(1) by simp
    show ?thesis
    proof (cases "odd i")
      case True
      then have di: "int i = 2 * (int i div 2) + 1" by presburger
      have "\<exists>c' ae'. pow_loop (i div 2) (pow2 (- (c + 1))) (ae + (t + 1)) (1 / 2) (2 * t + 1)
                = (pow2 (- c'), ae')
              \<and> 0 \<le> c' \<and> c' \<le> 1074 \<and> ae' - c' = ae + (t + 1) - (c + 1) + 2 * t * int (i div 2)"
        by (rule less.IH [OF lt p1 p2(1) p3 p4])
      then obtain c' ae' where
        r: "pow_loop (i div 2) (pow2 (- (c + 1))) (ae + (t + 1)) (1 / 2) (2 * t + 1)
              = (pow2 (- c'), ae')" "0 \<le> c'" "c' \<le> 1074"
        "ae' - c' = ae + (t + 1) - (c + 1) + 2 * t * int (i div 2)" by blast
      have "2 * t * int (i div 2) + t = t * int i"
      proof -
        have "t * int i = t * (2 * (int i div 2) + 1)" using di by simp
        then show ?thesis by (simp add: d algebra_simps)
      qed
      with r(4) have "ae' - c' = ae - c + t * int i" by simp
      with r(1-3) True show ?thesis by (auto simp: step)
    next
      case False
      then have di: "int i = 2 * (int i div 2)" by presburger
      have "\<exists>c' ae'. pow_loop (i div 2) (pow2 (- c)) ae (1 / 2) (2 * t + 1) = (pow2 (- c'), ae')
              \<and> 0 \<le> c' \<and> c' \<le> 1074 \<and> ae' - c' = ae - c + 2 * t * int (i div 2)"
        by (rule less.IH [OF lt less.prems(1) p2(2) p3 p4])
      then obtain c' ae' where
        r: "pow_loop (i div 2) (pow2 (- c)) ae (1 / 2) (2 * t + 1) = (pow2 (- c'), ae')"
        "0 \<le> c'" "c' \<le> 1074" "ae' - c' = ae - c + 2 * t * int (i div 2)" by blast
      have e: "2 * int (i div 2) = int i" using di d by simp
      have "2 * t * int (i div 2) = t * (2 * int (i div 2))" by simp
      also have "\<dots> = t * int i" by (simp only: e)
      finally have "2 * t * int (i div 2) = t * int i" .
      with r(4) have "ae' - c' = ae - c + t * int i" by simp
      with r(1-3) False show ?thesis by (auto simp: step)
    qed
  qed
qed

lemma Frexp_2: "Frexp 2 = (1 / 2, 2)"
  by (simp add: Frexp_def pow2_numeral)

text \<open>
  For the multiplier 2, which is that of the default policy, \<open>math.Pow\<close> returns the power
  without error as long as it is finite.
\<close>

lemma math_Pow_two:
  assumes "0 \<le> n" and "n \<le> 1023"
  shows "math_Pow (Finite 2) (float64_of_int n) = Finite (2 ^ nat n)"
proof (cases "n = 0 \<or> n = 1")
  case True
  then show ?thesis by (auto simp: math_Pow_0 math_Pow_1)
next
  case False
  with assms have n2: "2 \<le> n" by simp
  have f: "float64_of_int n = Finite (real_of_int n)"
    using assms by (intro float64_of_int_exact) simp
  from pow_loop_two [of 0 "nat n" 1 0] assms obtain c' ae' where
    l: "pow_loop (nat n) 1 0 (1 / 2) 2 = (pow2 (- c'), ae')" and c: "0 \<le> c'" "c' \<le> 1074"
    and v: "ae' - c' = n" by auto
  have "pow2 (- c') * pow2 ae' = pow2 (ae' - c')" by (simp add: pow2_add [symmetric])
  also have "\<dots> = pow2 n" by (simp add: v)
  finally have p: "pow2 (- c') * pow2 ae' = pow2 n" .
  have "round64 (pow2 n) = Finite (pow2 n)"
    using assms by (intro round64_representable representable_pow2) simp_all
  moreover have "pow2 n = 2 ^ nat n" using assms(1) by (simp add: pow2_def)
  ultimately have r: "round64 (pow2 n) = Finite (2 ^ nat n)" by simp
  have big: "\<not> 2 ^ 63 \<le> \<bar>real_of_int n\<bar>"
  proof -
    have "real_of_int n \<le> real_of_int 1023" using assms(2) by (simp only: of_int_le_iff)
    with assms(1) show ?thesis by simp
  qed
  have nn: "nat \<lfloor>\<bar>real_of_int n\<bar>\<rfloor> = nat n" using assms(1) by simp
  show ?thesis
    using n2 big
    by (simp add: math_Pow_def f Frexp_2 nn l Ldexp_def p r)
qed

subsection \<open>Conversions\<close>

lemma Duration_of_float_floor:
  assumes "0 \<le> x" and "x \<le> 2 ^ 62"
  shows "Duration_of_float (Finite x) = \<lfloor>x\<rfloor>"
proof -
  from assms(1) have 0: "0 \<le> \<lfloor>x\<rfloor>" by simp
  from assms(2) have "\<lfloor>x\<rfloor> \<le> \<lfloor>2 ^ 62 :: real\<rfloor>" by (rule floor_mono)
  also have "\<lfloor>2 ^ 62 :: real\<rfloor> = 2 ^ 62" by simp
  finally have "\<lfloor>x\<rfloor> < 2 ^ 63" by simp
  with 0 assms(1) show ?thesis by (simp add: Duration_of_float_def Let_def)
qed

lemma Duration_of_float_small:
  assumes "- 1 < x" and "x < 0"
  shows "Duration_of_float (Finite x) = 0"
proof -
  from assms have "\<lceil>x\<rceil> = 0" by (simp add: ceiling_eq_iff)
  with assms(2) show ?thesis by (simp add: Duration_of_float_def Let_def)
qed


lemma binade_eq:
  assumes "pow2 k \<le> \<bar>x\<bar>" and "\<bar>x\<bar> < pow2 (k + 1)" and "- 1022 \<le> k"
  shows "binade x = k"
proof -
  have "0 < \<bar>x\<bar>" using assms(1) pow2_pos [of k] by linarith
  then have "\<lfloor>log 2 \<bar>x\<bar>\<rfloor> = k"
    using assms(1,2) floor_log_eq_powr_iff [of "\<bar>x\<bar>" 2 k] by (simp add: pow2_powr)
  with assms(3) show ?thesis by (simp add: binade_def)
qed

lemma round64_tenth: "round64 (1 / 10) = Finite (3602879701896397 / 36028797018963968)"
proof -
  have b: "binade (1 / 10) = - 4"
    by (rule binade_eq) (simp_all add: pow2_def)
  have "nearest (1 / 10) = 3602879701896397 / 36028797018963968"
    by (simp add: nearest_def b pow2_def round_half_even_def Let_def)
  then show ?thesis by (simp add: round64_def Let_def)
qed


text \<open>
  Beyond 53 bits the conversion of an integer rounds: \<open>2^53 + 1\<close> becomes \<open>2^53\<close>, and the
  largest \<open>int64\<close> becomes \<open>2^63\<close>, which is beyond the range of \<open>int64\<close>.
\<close>

lemma float64_of_int_rounds: "float64_of_int (2 ^ 53 + 1) = Finite (2 ^ 53)"
proof -
  have b: "binade (2 ^ 53 + 1) = 53"
    by (rule binade_eq) (simp_all add: pow2_def)
  have "nearest (2 ^ 53 + 1) = 2 ^ 53"
    using b by (simp add: nearest_def pow2_def round_half_even_def Let_def)
  then show ?thesis by (simp add: float64_of_int_def round64_def Let_def)
qed

lemma float64_of_MaxInt64: "float64_of_int (2 ^ 63 - 1) = Finite (2 ^ 63)"
proof -
  have b: "binade (2 ^ 63 - 1) = 62"
    by (rule binade_eq) (simp_all add: pow2_def)
  have "nearest (2 ^ 63 - 1) = 2 ^ 63"
    using b by (simp add: nearest_def pow2_def round_half_even_def Let_def)
  then show ?thesis by (simp add: float64_of_int_def round64_def Let_def)
qed


text \<open>
  The conversion of an integer never has a fraction, so that the exponent which \<open>delay\<close>
  hands to \<open>math.Pow\<close> is always one that the model of \<open>math.Pow\<close> covers.
\<close>

lemma float64_of_int_integral:
  "float64_of_int n = PosInf \<or> float64_of_int n = NegInf
   \<or> (\<exists>k. float64_of_int n = Finite (real_of_int k))"
proof -
  have "\<exists>k. nearest (real_of_int n) = real_of_int k"
  proof (cases "\<bar>n\<bar> < 2 ^ 52")
    case True
    then have "representable (real_of_int n)" by (intro representable_int) simp
    then have "nearest (real_of_int n) = real_of_int n" by (rule nearest_representable)
    then show ?thesis by blast
  next
    case False
    then have "2 ^ 52 \<le> \<bar>n\<bar>" by simp
    then have "real_of_int (2 ^ 52) \<le> real_of_int \<bar>n\<bar>" by (simp only: of_int_le_iff)
    then have big: "pow2 52 \<le> \<bar>real_of_int n\<bar>" by (simp add: pow2_numeral)
    then have n0: "real_of_int n \<noteq> 0" using pow2_pos [of 52] by linarith
    from big binade_upper [OF n0] have "pow2 52 < pow2 (binade (real_of_int n) + 1)" by linarith
    then have "52 < binade (real_of_int n) + 1" by (simp only: pow2_less_iff)
    then have "0 \<le> binade (real_of_int n) - 52" by simp
    then have "pow2 (binade (real_of_int n) - 52)
                 = real_of_int (2 ^ nat (binade (real_of_int n) - 52))" by (rule pow2_int)
    then have "nearest (real_of_int n) =
                 real_of_int (round_half_even (real_of_int n / pow2 (binade (real_of_int n) - 52))
                   * 2 ^ nat (binade (real_of_int n) - 52))"
      using n0 by (simp add: nearest_def Let_def)
    then show ?thesis by blast
  qed
  then obtain k where "nearest (real_of_int n) = real_of_int k" ..
  then show ?thesis by (simp add: float64_of_int_def round64_def Let_def)
qed

section \<open>Properties of the retry classifier\<close>

lemma chain_head: "\<exists>es. chain e = e # es"
  by (cases e rule: chain.cases) auto

lemma detection_in_chain: "errors_As_DetectionError (DetectionError n c)"
  by (cases c) (simp_all add: errors_As_DetectionError_def)

text \<open>
  C4 (amended). The classifier returns false for every DetectionError and for every error
  in whose cause chain \<open>errors.As\<close> finds a DetectionError, whichever stage wrapped it; false
  for every error whose cause chain holds \<open>context.Canceled\<close> or
  \<open>context.DeadlineExceeded\<close>, whichever stage wrapped it; and true for every other
  GenerationError, ValidationError and SchemaError, that is, for those whose cause chain
  holds neither a DetectionError nor one of the two context errors.
\<close>

theorem shouldRetry_classifies:
  "\<not> shouldRetry (Some (DetectionError n c))
   \<and> (errors_As_DetectionError e \<longrightarrow> \<not> shouldRetry (Some e))
   \<and> (Canceled \<in> set (chain e) \<or> DeadlineExceeded \<in> set (chain e) \<longrightarrow> \<not> shouldRetry (Some e))
   \<and> (e' \<in> {GenerationError c', ValidationError n' c', SchemaError c'}
        \<and> \<not> errors_As_DetectionError e'
        \<and> Canceled \<notin> set (chain e') \<and> DeadlineExceeded \<notin> set (chain e')
      \<longrightarrow> shouldRetry (Some e'))"
proof -
  have a: "\<not> shouldRetry (Some (DetectionError n c))"
    by (simp add: shouldRetry_def detection_in_chain)
  have b: "errors_As_DetectionError e \<longrightarrow> \<not> shouldRetry (Some e)"
    by (simp add: shouldRetry_def)
  have c: "Canceled \<in> set (chain e) \<or> DeadlineExceeded \<in> set (chain e)
           \<longrightarrow> \<not> shouldRetry (Some e)"
    by (auto simp: shouldRetry_def fatalErrors_def errors_Is_def list_ex_iff)
  have d: "\<not> errors_As_DetectionError e'
           \<and> Canceled \<notin> set (chain e') \<and> DeadlineExceeded \<notin> set (chain e')
           \<longrightarrow> shouldRetry (Some e')"
    by (auto simp: shouldRetry_def fatalErrors_def errors_Is_def list_ex_iff)
  from a b c d show ?thesis by blast
qed

theorem shouldRetry_classifies_witness:
  "errors_As_DetectionError (GenerationError (Some (DetectionError ''keywords'' None)))
   \<and> \<not> shouldRetry (Some (GenerationError (Some (DetectionError ''keywords'' None))))
   \<and> Canceled \<in> set (chain (SchemaError (Some (ErrWrap ''read'' Canceled))))
   \<and> \<not> shouldRetry (Some (SchemaError (Some (ErrWrap ''read'' Canceled))))
   \<and> shouldRetry (Some (ValidationError ''json'' (Some (ErrNew ''invalid JSON''))))"
  using shouldRetry_classifies [of "''d''" None
      "GenerationError (Some (DetectionError ''keywords'' None))"
      "ValidationError ''json'' (Some (ErrNew ''invalid JSON''))"
      "Some (ErrNew ''invalid JSON'')" "''json''"]
    shouldRetry_classifies [of "''d''" None "SchemaError (Some (ErrWrap ''read'' Canceled))"
      "ValidationError ''json'' (Some (ErrNew ''invalid JSON''))"
      "Some (ErrNew ''invalid JSON'')" "''json''"]
  by (simp add: errors_As_DetectionError_def)

text \<open>
  C4 fails as stated. A GenerationError that wraps a DetectionError is itself no
  DetectionError and has neither \<open>context.Canceled\<close> nor \<open>context.DeadlineExceeded\<close> in its
  cause chain, so the claim makes it retryable; the classifier returns false for it,
  because \<open>errors.As\<close> searches the whole chain.
\<close>

theorem shouldRetry_wrapped_detection:
  "\<not> isDetectionError (GenerationError (Some (DetectionError ''keywords'' None)))
   \<and> Canceled \<notin> set (chain (GenerationError (Some (DetectionError ''keywords'' None))))
   \<and> DeadlineExceeded \<notin> set (chain (GenerationError (Some (DetectionError ''keywords'' None))))
   \<and> \<not> shouldRetry (Some (GenerationError (Some (DetectionError ''keywords'' None))))"
  by (simp add: shouldRetry_def errors_As_DetectionError_def)

section \<open>Properties of the backoff delay\<close>

lemma Validate_None:
  "Validate c = None \<longleftrightarrow>
     1 \<le> MaxAttempts c \<and> 0 \<le> InitialDelay c \<and> 0 \<le> MaxDelay c
     \<and> \<not> flt (Multiplier c) (Finite 1)
     \<and> \<not> flt (Jitter c) (Finite 0) \<and> \<not> fgt (Jitter c) (Finite 1)"
  by (auto simp: Validate_def)

lemma Validate_Finite:
  assumes "Validate c = None" and "Multiplier c = Finite m" and "Jitter c = Finite j"
  shows "1 \<le> m" and "0 \<le> j" and "j \<le> 1" and "0 \<le> InitialDelay c" and "0 \<le> MaxDelay c"
  using assms by (simp_all add: Validate_None fgt_def)


lemma Validate_Default: "Validate DefaultRetryConfig = None"
  by (simp add: Validate_def DefaultRetryConfig_def round64_tenth fgt_def)

lemma base_Finite:
  assumes "Multiplier c = Finite m"
  shows "base c a = min (real_of_int (MaxDelay c)) (real_of_int (InitialDelay c) * m ^ nat (a - 1))"
  using assms by (simp add: base_def float_value_def)

lemma base_nonneg:
  assumes "Validate c = None" and "Multiplier c = Finite m"
  shows "0 \<le> base c a"
proof -
  from assms have "1 \<le> m" "0 \<le> InitialDelay c" "0 \<le> MaxDelay c"
    by (simp_all add: Validate_None)
  then have "0 \<le> real_of_int (InitialDelay c) * m ^ nat (a - 1)" by simp
  with \<open>0 \<le> MaxDelay c\<close> show ?thesis by (simp add: base_Finite [OF assms(2)])
qed

lemma jittered_Finite:
  assumes "Jitter c = Finite j"
  shows "jittered c a r = base c a * (1 - j) + r * 2 * (base c a * j)"
  using assms by (simp add: jittered_def float_value_def algebra_simps)

lemma jittered_bounds:
  assumes "0 \<le> base c a" and "Jitter c = Finite j" and "0 \<le> j" and "0 \<le> r" and "r < 1"
  shows "base c a * (1 - j) \<le> jittered c a r" and "jittered c a r \<le> base c a * (1 + j)"
proof -
  have bj: "0 \<le> base c a * j" using assms(1,3) by simp
  with assms(4) have "0 \<le> r * 2 * (base c a * j)" by simp
  then show "base c a * (1 - j) \<le> jittered c a r" by (simp add: jittered_Finite [OF assms(2)])
  from assms(5) have "r * (base c a * j) \<le> 1 * (base c a * j)"
    using bj by (intro mult_right_mono) simp_all
  then show "jittered c a r \<le> base c a * (1 + j)"
    by (simp add: jittered_Finite [OF assms(2)] algebra_simps)
qed

text \<open>
  The capped value, as \<open>delay\<close> computes it with rounding, for delays of at most \<open>2^48\<close>ns
  and a power that \<open>math.Pow\<close> returns without error: it is within a sixteenth of a
  nanosecond of the spec's \<open>base\<close>.
\<close>

lemma capped_close:
  assumes v: "Validate c = None" and m: "Multiplier c = Finite m"
    and I48: "InitialDelay c \<le> 2 ^ 48" and M48: "MaxDelay c \<le> 2 ^ 48"
    and pw: "math_Pow (Finite m) (float64_of_int (a - 1)) = Finite (m ^ nat (a - 1))"
  shows "\<exists>B. capped c a = Finite B \<and> \<bar>B - base c a\<bar> \<le> 1 / 16 \<and> 0 \<le> B
             \<and> B \<le> real_of_int (MaxDelay c)"
proof -
  define I where "I = real_of_int (InitialDelay c)"
  define M where "M = real_of_int (MaxDelay c)"
  define p where "p = m ^ nat (a - 1)"
  from v m have m1: "1 \<le> m" and I0': "0 \<le> InitialDelay c" and M0': "0 \<le> MaxDelay c"
    by (simp_all add: Validate_None)
  have I0: "0 \<le> I" and M0: "0 \<le> M" using I0' M0' by (simp_all add: I_def M_def)
  have "real_of_int (MaxDelay c) \<le> real_of_int (2 ^ 48)" using M48 by (simp only: of_int_le_iff)
  then have M48r: "M \<le> 2 ^ 48" by (simp add: M_def)
  have p1: "1 \<le> p" using m1 by (simp add: p_def)
  have Ip0: "0 \<le> I * p" using I0 p1 by simp
  have fI: "float64_of_int (InitialDelay c) = Finite I"
    unfolding I_def using I0' I48 by (intro float64_of_int_exact) simp
  have fM: "float64_of_int (MaxDelay c) = Finite M"
    unfolding M_def using M0' M48 by (intro float64_of_int_exact) simp
  have cap: "capped c a = (if fgt (round64 (I * p)) (Finite M) then Finite M else round64 (I * p))"
    by (simp add: capped_def m pw fI fM p_def Let_def)
  have b: "base c a = min M (I * p)" by (simp add: base_Finite [OF m] I_def M_def p_def)
  show ?thesis
  proof (cases "I * p \<le> pow2 49")
    case True
    with Ip0 have "\<bar>I * p\<bar> \<le> pow2 49" by simp
    from round64_abs_err [OF this] Ip0 obtain y where
      y: "round64 (I * p) = Finite y" and e: "\<bar>y - I * p\<bar> \<le> pow2 (49 - 53)" and y0: "0 \<le> y"
      by auto
    from e have e': "\<bar>y - I * p\<bar> \<le> 1 / 16" by (simp add: pow2_neg_numeral)
    show ?thesis
    proof (cases "M < y")
      case True
      then have "capped c a = Finite M" by (simp add: cap y fgt_def)
      moreover have "\<bar>M - base c a\<bar> \<le> 1 / 16" using True e' unfolding b by linarith
      ultimately show ?thesis using M0 by (simp add: M_def)
    next
      case False
      then have "capped c a = Finite y" by (simp add: cap y fgt_def)
      moreover have "\<bar>y - base c a\<bar> \<le> 1 / 16" using False e' unfolding b by linarith
      ultimately show ?thesis using False y0 by (simp add: M_def)
    qed
  next
    case False
    then have big: "pow2 49 < I * p" by simp
    have "pow2 (- 1022) \<le> pow2 49" by (rule pow2_mono) simp
    with big have "pow2 (- 1022) \<le> \<bar>I * p\<bar>" by simp
    then have "\<bar>nearest (I * p) - I * p\<bar> \<le> \<bar>I * p\<bar> / 2 ^ 53" by (rule nearest_rel_err)
    moreover have "\<bar>I * p\<bar> / 2 ^ 53 \<le> \<bar>I * p\<bar> / 2" by (intro divide_left_mono) simp_all
    ultimately have "\<bar>nearest (I * p) - I * p\<bar> \<le> \<bar>I * p\<bar> / 2" by (rule order_trans)
    then have "I * p / 2 \<le> nearest (I * p)" using Ip0 by linarith
    moreover have "pow2 49 = 2 * 2 ^ 48" by (simp add: pow2_numeral)
    ultimately have n: "M < nearest (I * p)" using big M48r by linarith
    have "- (2 ^ 1024) < (0::real)" by simp
    with n M0 have "\<not> nearest (I * p) \<le> - (2 ^ 1024)" by linarith
    then have "round64 (I * p) = PosInf \<or> round64 (I * p) = Finite (nearest (I * p))"
      by (simp add: round64_def Let_def)
    with n have "fgt (round64 (I * p)) (Finite M)" by (auto simp: fgt_def)
    then have "capped c a = Finite M" by (simp add: cap)
    moreover have "M \<le> I * p" using big M48r by (simp add: pow2_numeral)
    then have "base c a = M" by (simp add: b min_def)
    ultimately show ?thesis using M0 by (simp add: M_def)
  qed
qed

text \<open>
  The value that \<open>delay\<close> converts to a duration: each of the five rounded operations of the
  jitter adds an error of at most a quarter of a nanosecond at these magnitudes, in sum at
  most five eighths.
\<close>

lemma delay_value:
  assumes v: "Validate c = None" and a: "1 \<le> a"
    and m: "Multiplier c = Finite m" and j: "Jitter c = Finite j"
    and I48: "InitialDelay c \<le> 2 ^ 48" and M48: "MaxDelay c \<le> 2 ^ 48"
    and pw: "math_Pow (Finite m) (float64_of_int (a - 1)) = Finite (m ^ nat (a - 1))"
    and r0: "0 \<le> r" and r1: "r < 1" and rr: "representable r"
  shows "\<exists>x. 0 \<le> x \<and> delay c a (Finite r) = \<lfloor>x\<rfloor> \<and> \<bar>x - jittered c a r\<bar> \<le> 5 / 8
             \<and> (j = 0 \<longrightarrow> \<bar>x - base c a\<bar> \<le> 1 / 16 \<and> x \<le> real_of_int (MaxDelay c))"
proof (cases "InitialDelay c = 0")
  case True
  from v have "0 \<le> MaxDelay c" by (simp add: Validate_None)
  with True have "base c a = 0" by (simp add: base_def)
  then have "jittered c a r = 0" by (simp add: jittered_def)
  with True \<open>base c a = 0\<close> \<open>0 \<le> MaxDelay c\<close> show ?thesis
    by (intro exI [of _ 0]) (simp add: delay_def)
next
  case False
  from Validate_Finite [OF v m j] have j0: "0 \<le> j" and j1: "j \<le> 1" by simp_all
  have b0: "0 \<le> base c a" using v m by (rule base_nonneg)
  from capped_close [OF v m I48 M48 pw] obtain B where
    B: "capped c a = Finite B" and e0: "\<bar>B - base c a\<bar> \<le> 1 / 16" and B0: "0 \<le> B"
    and BM: "B \<le> real_of_int (MaxDelay c)" by blast
  have "real_of_int (MaxDelay c) \<le> real_of_int (2 ^ 48)" using M48 by (simp only: of_int_le_iff)
  with BM have B48: "B \<le> 2 ^ 48" by simp
  have jit: "jittered c a r = base c a * (1 - j) + r * 2 * (base c a * j)"
    using j by (rule jittered_Finite)
  have pw2: "(2::real) ^ 49 = 2 * 2 ^ 48" "(2::real) ^ 50 = 4 * 2 ^ 48"
    "(2::real) ^ 51 = 8 * 2 ^ 48" "(2::real) ^ 62 = 16384 * 2 ^ 48" "(1::real) \<le> 2 ^ 48"
    by simp_all
  show ?thesis
  proof (cases "0 < j")
    case nj: False
    with j0 have jz: "j = 0" by simp
    have "delay c a (Finite r) = Duration_of_float (Finite B)"
      using False a by (simp add: delay_def B j jz fgt_def)
    also have "\<dots> = \<lfloor>B\<rfloor>"
    proof (rule Duration_of_float_floor [OF B0])
      show "B \<le> 2 ^ 62" using B48 pw2 by linarith
    qed
    finally have d: "delay c a (Finite r) = \<lfloor>B\<rfloor>" .
    have "jittered c a r = base c a" by (simp add: jit jz)
    with d e0 B0 BM show ?thesis by (intro exI [of _ B]) simp
  next
    case pj: True
    have Bj: "0 \<le> B * j" "B * j \<le> B" using B0 j0 j1 by (simp_all add: mult_left_le)
    then have "\<bar>B * j\<bar> \<le> pow2 48" using B48 unfolding pow2_numeral by linarith
    from round64_abs_err [OF this] Bj(1) obtain J where
      J: "round64 (B * j) = Finite J" and e1': "\<bar>J - B * j\<bar> \<le> pow2 (48 - 53)" and J0: "0 \<le> J"
      by auto
    from e1' have e1: "\<bar>J - B * j\<bar> \<le> 1 / 32" by (simp add: pow2_neg_numeral)
    have J48: "J \<le> 2 ^ 48 + 1 / 32" using e1 Bj(2) B48 by linarith
    have "\<bar>B - J\<bar> \<le> pow2 49" using B0 B48 J0 J48 pw2 unfolding pow2_numeral by linarith
    from round64_abs_err [OF this] obtain D where
      D: "round64 (B - J) = Finite D" and e2': "\<bar>D - (B - J)\<bar> \<le> pow2 (49 - 53)"
      by auto
    from e2' have e2: "\<bar>D - (B - J)\<bar> \<le> 1 / 16" by (simp add: pow2_neg_numeral)
    have r2: "round64 (r * 2) = Finite (r * 2)"
      using rr r0 r1 by (intro round64_representable representable_double) simp_all
    have rJ: "0 \<le> r * 2 * J" "r * 2 * J \<le> 2 * J"
    proof -
      show "0 \<le> r * 2 * J" using r0 J0 by simp
      have "r * (2 * J) \<le> 1 * (2 * J)" using r1 J0 by (intro mult_right_mono) simp_all
      then show "r * 2 * J \<le> 2 * J" by simp
    qed
    then have "\<bar>r * 2 * J\<bar> \<le> pow2 50" using J48 pw2 unfolding pow2_numeral by linarith
    from round64_abs_err [OF this] obtain T where
      T: "round64 (r * 2 * J) = Finite T" and e3': "\<bar>T - r * 2 * J\<bar> \<le> pow2 (50 - 53)"
      by auto
    from e3' have e3: "\<bar>T - r * 2 * J\<bar> \<le> 1 / 8" by (simp add: pow2_neg_numeral)
    have Dabs: "\<bar>D\<bar> \<le> 2 ^ 48 + 1 / 8" using e2 B0 B48 J0 J48 by linarith
    have Tabs: "\<bar>T\<bar> \<le> 2 ^ 49 + 1 / 4" using e3 rJ J48 pw2 by linarith
    have "\<bar>D + T\<bar> \<le> pow2 51" using Dabs Tabs pw2 unfolding pow2_numeral by linarith
    from round64_abs_err [OF this] obtain X where
      X: "round64 (D + T) = Finite X" and e4': "\<bar>X - (D + T)\<bar> \<le> pow2 (51 - 53)"
      by auto
    from e4' have e4: "\<bar>X - (D + T)\<bar> \<le> 1 / 4" by (simp add: pow2_neg_numeral)
    have d: "delay c a (Finite r) = Duration_of_float (Finite X)"
      using False a pj by (simp add: delay_def B j fgt_def fsub_def J D r2 T X Let_def)
    define s where "s = r * 2 - 1"
    define t where "t = 1 + s * j"
    have s: "\<bar>s\<bar> \<le> 1" using r0 r1 by (simp add: s_def)
    have "\<bar>s * j\<bar> \<le> 1 * 1" unfolding abs_mult using s j0 j1 by (intro mult_mono) simp_all
    then have t: "\<bar>t\<bar> \<le> 2" by (simp add: t_def)
    have "\<bar>(B - base c a) * t\<bar> \<le> 1 / 16 * 2"
      unfolding abs_mult using e0 t by (intro mult_mono) simp_all
    then have p0: "\<bar>(B - base c a) * t\<bar> \<le> 1 / 8" by simp
    have "\<bar>s * (J - B * j)\<bar> \<le> 1 * (1 / 32)"
      unfolding abs_mult using s e1 by (intro mult_mono) simp_all
    then have p1: "\<bar>s * (J - B * j)\<bar> \<le> 1 / 32" by simp
    have "X - jittered c a r =
            (B - base c a) * t + s * (J - B * j) + (D - (B - J)) + (T - r * 2 * J)
            + (X - (D + T))"
      by (simp add: jit s_def t_def algebra_simps)
    with p0 p1 e2 e3 e4 have close: "\<bar>X - jittered c a r\<bar> \<le> 5 / 8" by linarith
    have jn: "0 \<le> jittered c a r" using b0 j0 j1 r0 by (simp add: jit)
    show ?thesis
    proof (cases "0 \<le> X")
      case True
      have "X \<le> 2 ^ 62" using e4 Dabs Tabs pw2 by linarith
      with True have "Duration_of_float (Finite X) = \<lfloor>X\<rfloor>" by (rule Duration_of_float_floor)
      with d close True pj show ?thesis by (intro exI [of _ X]) simp
    next
      case False
      with close jn have "- 1 < X" "X < 0" by linarith+
      then have "Duration_of_float (Finite X) = 0" by (rule Duration_of_float_small)
      moreover have "\<bar>0 - jittered c a r\<bar> \<le> 5 / 8" using close jn False by linarith
      ultimately show ?thesis using d pj by (intro exI [of _ 0]) simp
    qed
  qed
qed

lemma capped_exact:
  assumes v: "Validate c = None" and m: "Multiplier c = Finite m"
    and I48: "InitialDelay c \<le> 2 ^ 48" and M48: "MaxDelay c \<le> 2 ^ 48"
    and pw: "math_Pow (Finite m) (float64_of_int (a - 1)) = Finite (m ^ nat (a - 1))"
    and ex: "representable (real_of_int (InitialDelay c) * m ^ nat (a - 1))"
  shows "capped c a = Finite (base c a)"
proof -
  from v have I0: "0 \<le> InitialDelay c" and M0: "0 \<le> MaxDelay c"
    by (simp_all add: Validate_None)
  have fI: "float64_of_int (InitialDelay c) = Finite (real_of_int (InitialDelay c))"
    using I0 I48 by (intro float64_of_int_exact) simp
  have fM: "float64_of_int (MaxDelay c) = Finite (real_of_int (MaxDelay c))"
    using M0 M48 by (intro float64_of_int_exact) simp
  show ?thesis
    by (simp add: capped_def m pw fI fM round64_representable [OF ex] fgt_def
        base_Finite [OF m] min_def Let_def)
qed

lemma delay_no_jitter_exact:
  assumes v: "Validate c = None" and a: "1 \<le> a"
    and m: "Multiplier c = Finite m" and j: "Jitter c = Finite 0"
    and I48: "InitialDelay c \<le> 2 ^ 48" and M48: "MaxDelay c \<le> 2 ^ 48"
    and pw: "math_Pow (Finite m) (float64_of_int (a - 1)) = Finite (m ^ nat (a - 1))"
    and ex: "representable (real_of_int (InitialDelay c) * m ^ nat (a - 1))"
  shows "delay c a rnd = \<lfloor>base c a\<rfloor>"
proof (cases "InitialDelay c = 0")
  case True
  from v have "0 \<le> MaxDelay c" by (simp add: Validate_None)
  with True show ?thesis by (simp add: delay_def base_def)
next
  case False
  have b0: "0 \<le> base c a" using v m by (rule base_nonneg)
  have "base c a \<le> real_of_int (MaxDelay c)" by (simp add: base_def)
  also have "\<dots> \<le> real_of_int (2 ^ 48)" using M48 by (simp only: of_int_le_iff)
  also have "\<dots> \<le> 2 ^ 62" by simp
  finally have "Duration_of_float (Finite (base c a)) = \<lfloor>base c a\<rfloor>"
    using b0 by (intro Duration_of_float_floor)
  with False a show ?thesis
    by (simp add: delay_def capped_exact [OF v m I48 M48 pw ex] j fgt_def)
qed


text \<open>
  The bound that \<open>delay\<close> does keep, in the same domain: the delay never exceeds
  \<open>MaxDelay * (1 + Jitter)\<close> by more than the rounding error, and never exceeds \<open>MaxDelay\<close>
  when the jitter fraction is 0.
\<close>

lemma delay_le_MaxDelay_jitter:
  assumes "Validate c = None" and "1 \<le> a"
    and "Multiplier c = Finite m" and "Jitter c = Finite j"
    and "InitialDelay c \<le> 2 ^ 48" and "MaxDelay c \<le> 2 ^ 48"
    and "math_Pow (Finite m) (float64_of_int (a - 1)) = Finite (m ^ nat (a - 1))"
    and "0 \<le> r" and "r < 1" and "representable r"
  shows "real_of_int (delay c a (Finite r)) \<le> real_of_int (MaxDelay c) * (1 + j) + 5 / 8
         \<and> (j = 0 \<longrightarrow> delay c a (Finite r) \<le> MaxDelay c)"
proof -
  from delay_value [OF assms] obtain x where
    x: "delay c a (Finite r) = \<lfloor>x\<rfloor>" "\<bar>x - jittered c a r\<bar> \<le> 5 / 8"
    "j = 0 \<longrightarrow> x \<le> real_of_int (MaxDelay c)" by blast
  from Validate_Finite [OF assms(1,3,4)] have j0: "0 \<le> j" by simp
  have b0: "0 \<le> base c a" using assms(1,3) by (rule base_nonneg)
  have "real_of_int (delay c a (Finite r)) \<le> x" by (simp add: x(1))
  also have "x \<le> jittered c a r + 5 / 8" using x(2) by linarith
  also have "jittered c a r \<le> base c a * (1 + j)"
    using b0 assms(4) j0 assms(8,9) by (rule jittered_bounds)
  also have "base c a * (1 + j) \<le> real_of_int (MaxDelay c) * (1 + j)"
    using j0 by (intro mult_right_mono) (simp_all add: base_def)
  finally have one: "real_of_int (delay c a (Finite r)) \<le> real_of_int (MaxDelay c) * (1 + j) + 5 / 8"
    by simp
  have "j = 0 \<longrightarrow> delay c a (Finite r) \<le> MaxDelay c"
  proof
    assume "j = 0"
    with x(3) have "\<lfloor>x\<rfloor> \<le> \<lfloor>real_of_int (MaxDelay c)\<rfloor>" by (intro floor_mono) simp
    then show "delay c a (Finite r) \<le> MaxDelay c" by (simp add: x(1))
  qed
  with one show ?thesis by simp
qed


text \<open>
  For the multiplier 2 of the default policy the power is exact at every attempt up to the
  1024th, so that the lemmas above apply to it.
\<close>

lemma math_Pow_default:
  assumes "1 \<le> a" and "a \<le> 1024"
  shows "math_Pow (Multiplier DefaultRetryConfig) (float64_of_int (a - 1)) = Finite (2 ^ nat (a - 1))"
  using assms math_Pow_two [of "a - 1"] by (simp add: DefaultRetryConfig_def)

text \<open>
  C2, at an input on which it fails. The policy \<open>InitialDelay = MaxDelay = 1000ns\<close>,
  multiplier 2, jitter fraction one half is valid, and with the draw 0.75 the delay before
  attempt 1 is 1250ns, above \<open>MaxDelay\<close>: the value is capped first and perturbed
  afterwards. The claim is that the delay never exceeds \<open>MaxDelay\<close>, jitter or not. Every
  value of this computation is a \<open>float64\<close>, so that no operation rounds.
\<close>

theorem delay_exceeds_MaxDelay:
  "Validate \<lparr>MaxAttempts = 3, InitialDelay = 1000, MaxDelay = 1000, Multiplier = Finite 2,
       Jitter = Finite (1 / 2)\<rparr> = None
   \<and> \<not> delay \<lparr>MaxAttempts = 3, InitialDelay = 1000, MaxDelay = 1000, Multiplier = Finite 2,
         Jitter = Finite (1 / 2)\<rparr> 1 (Finite (3 / 4))
       \<le> MaxDelay \<lparr>MaxAttempts = 3, InitialDelay = 1000, MaxDelay = 1000, Multiplier = Finite 2,
         Jitter = Finite (1 / 2)\<rparr>
   \<and> delay \<lparr>MaxAttempts = 3, InitialDelay = 1000, MaxDelay = 1000, Multiplier = Finite 2,
         Jitter = Finite (1 / 2)\<rparr> 1 (Finite (3 / 4)) = 1250"
proof -
  have r: "round64 1000 = Finite 1000" "round64 500 = Finite 500" "round64 750 = Finite 750"
    "round64 1250 = Finite 1250" "round64 (3 / 2) = Finite (3 / 2)"
    using round64_int [of 1000] round64_int [of 500] round64_int [of 750] round64_int [of 1250]
      round64_half [of 3] by simp_all
  have i: "float64_of_int 1000 = Finite 1000" using float64_of_int_exact [of 1000] by simp
  show ?thesis
    by (simp add: Validate_def delay_def capped_def fgt_def fsub_def math_Pow_0 i r
        Duration_of_float_def)
qed

text \<open>
  Outside the domain of the lemmas above \<open>delay\<close> follows the \<open>float64\<close> and \<open>int64\<close>
  conversions: an \<open>InitialDelay\<close> of \<open>2^53 + 1\<close>ns gives \<open>2^53\<close>ns, the largest \<open>int64\<close> gives
  the smallest one, and so does a multiplier that is not a number, which \<open>Validate\<close> accepts
  because every comparison with NaN is false.
\<close>

lemma delay_rounds_InitialDelay:
  "Validate \<lparr>MaxAttempts = 3, InitialDelay = 2 ^ 53 + 1, MaxDelay = 2 ^ 53 + 1,
       Multiplier = Finite 2, Jitter = Finite 0\<rparr> = None
   \<and> delay \<lparr>MaxAttempts = 3, InitialDelay = 2 ^ 53 + 1, MaxDelay = 2 ^ 53 + 1,
       Multiplier = Finite 2, Jitter = Finite 0\<rparr> 1 rnd = 2 ^ 53"
proof -
  have "round64 (2 ^ 53) = Finite (2 ^ 53)" using round64_representable [OF representable_pow2 [of 53]]
    by (simp add: pow2_numeral)
  then show ?thesis
    using float64_of_int_rounds
    by (simp add: Validate_def delay_def capped_def fgt_def math_Pow_0 Duration_of_float_def)
qed

lemma delay_MaxInt64:
  "Validate \<lparr>MaxAttempts = 3, InitialDelay = 2 ^ 63 - 1, MaxDelay = 2 ^ 63 - 1,
       Multiplier = Finite 2, Jitter = Finite 0\<rparr> = None
   \<and> delay \<lparr>MaxAttempts = 3, InitialDelay = 2 ^ 63 - 1, MaxDelay = 2 ^ 63 - 1,
       Multiplier = Finite 2, Jitter = Finite 0\<rparr> 1 rnd = MinInt64"
proof -
  have "round64 (2 ^ 63) = Finite (2 ^ 63)" using round64_representable [OF representable_pow2 [of 63]]
    by (simp add: pow2_numeral)
  then show ?thesis
    using float64_of_MaxInt64
    by (simp add: Validate_def delay_def capped_def fgt_def math_Pow_0 Duration_of_float_def)
qed

lemma delay_NaN_Multiplier:
  "Validate \<lparr>MaxAttempts = 3, InitialDelay = 1000, MaxDelay = 1000, Multiplier = NaN,
       Jitter = Finite 0\<rparr> = None
   \<and> delay \<lparr>MaxAttempts = 3, InitialDelay = 1000, MaxDelay = 1000, Multiplier = NaN,
       Jitter = Finite 0\<rparr> 2 rnd = MinInt64"
  using float64_of_int_exact [of 1000]
  by (simp add: Validate_def delay_def capped_def fgt_def math_Pow_1 Duration_of_float_def)

text \<open>
  C8 (amended). Take a valid policy with a finite multiplier \<open>m\<close> and jitter fraction \<open>j\<close>,
  \<open>InitialDelay\<close> and \<open>MaxDelay\<close> of at most \<open>2^48\<close>ns, an attempt \<open>a \<ge> 1\<close> at which \<open>math.Pow\<close>
  returns \<open>m^(a-1)\<close> without error, and a draw that is a \<open>float64\<close> in the half-open interval
  from 0 to 1. Then the delay is the integer part (in nanoseconds) of a value that lies
  within five eighths of a nanosecond of \<open>[base*(1-j), base*(1+j)]\<close>, where
  \<open>base = min(maxDelay, initialDelay*multiplier^(a-1))\<close>. With \<open>j = 0\<close> it is the integer part
  of a value within a sixteenth of a nanosecond of \<open>base\<close>, and the integer part of \<open>base\<close>
  itself when \<open>initialDelay*multiplier^(a-1)\<close> is a \<open>float64\<close>. For every policy, a delay of
  exactly 0, which \<open>InitialDelay = 0\<close> gives, makes \<open>backoff\<close> return at once without waiting.
\<close>

theorem delay_near_jitter_interval:
  "(Validate c = None \<and> 1 \<le> a \<and> Multiplier c = Finite m \<and> Jitter c = Finite j
      \<and> InitialDelay c \<le> 2 ^ 48 \<and> MaxDelay c \<le> 2 ^ 48
      \<and> math_Pow (Finite m) (float64_of_int (a - 1)) = Finite (m ^ nat (a - 1))
      \<and> 0 \<le> r \<and> r < 1 \<and> representable r
    \<longrightarrow> (\<exists>x. base c a * (1 - j) - 5 / 8 \<le> x \<and> x \<le> base c a * (1 + j) + 5 / 8
               \<and> delay c a (Finite r) = \<lfloor>x\<rfloor>)
        \<and> (j = 0 \<longrightarrow>
              (\<exists>x. \<bar>x - base c a\<bar> \<le> 1 / 16 \<and> delay c a (Finite r) = \<lfloor>x\<rfloor>)
              \<and> (representable (real_of_int (InitialDelay c) * m ^ nat (a - 1))
                   \<longrightarrow> delay c a (Finite r) = \<lfloor>base c a\<rfloor>)))
   \<and> (delay c a (rand_Float64 w a) = 0 \<longrightarrow> backoff c w ctx a = None)
   \<and> (InitialDelay c = 0 \<longrightarrow> delay c a rnd = 0 \<and> backoff c w ctx a = None)"
proof (intro conjI impI)
  assume h: "Validate c = None \<and> 1 \<le> a \<and> Multiplier c = Finite m \<and> Jitter c = Finite j
      \<and> InitialDelay c \<le> 2 ^ 48 \<and> MaxDelay c \<le> 2 ^ 48
      \<and> math_Pow (Finite m) (float64_of_int (a - 1)) = Finite (m ^ nat (a - 1))
      \<and> 0 \<le> r \<and> r < 1 \<and> representable r"
  then have v: "Validate c = None" and a: "1 \<le> a" and m: "Multiplier c = Finite m"
    and j: "Jitter c = Finite j" and I48: "InitialDelay c \<le> 2 ^ 48"
    and M48: "MaxDelay c \<le> 2 ^ 48"
    and pw: "math_Pow (Finite m) (float64_of_int (a - 1)) = Finite (m ^ nat (a - 1))"
    and r: "0 \<le> r" "r < 1" "representable r" by simp_all
  from delay_value [OF v a m j I48 M48 pw r] obtain x where
    x: "delay c a (Finite r) = \<lfloor>x\<rfloor>" "\<bar>x - jittered c a r\<bar> \<le> 5 / 8"
    "j = 0 \<longrightarrow> \<bar>x - base c a\<bar> \<le> 1 / 16" by blast
  from Validate_Finite [OF v m j] have j0: "0 \<le> j" by simp
  have b0: "0 \<le> base c a" using v m by (rule base_nonneg)
  from jittered_bounds [OF b0 j j0 r(1,2)] x(2)
  have "base c a * (1 - j) - 5 / 8 \<le> x" "x \<le> base c a * (1 + j) + 5 / 8" by linarith+
  with x(1) show "\<exists>x. base c a * (1 - j) - 5 / 8 \<le> x \<and> x \<le> base c a * (1 + j) + 5 / 8
               \<and> delay c a (Finite r) = \<lfloor>x\<rfloor>" by blast
  {
    assume "j = 0"
    with x show "\<exists>x. \<bar>x - base c a\<bar> \<le> 1 / 16 \<and> delay c a (Finite r) = \<lfloor>x\<rfloor>" by blast
    assume "representable (real_of_int (InitialDelay c) * m ^ nat (a - 1))"
    with v a m j \<open>j = 0\<close> I48 M48 pw show "delay c a (Finite r) = \<lfloor>base c a\<rfloor>"
      by (intro delay_no_jitter_exact) simp_all
  }
next
  assume "delay c a (rand_Float64 w a) = 0"
  then show "backoff c w ctx a = None" by (simp add: backoff_def)
next
  assume "InitialDelay c = 0"
  then show "delay c a rnd = 0" by (simp add: delay_def)
next
  assume "InitialDelay c = 0"
  then show "backoff c w ctx a = None" by (simp add: backoff_def delay_def)
qed


text \<open>
  The theorem at three inputs: the 3ns policy with a jitter fraction of one half, a policy
  without jitter at its third attempt (1000ns doubled twice), and an \<open>InitialDelay\<close> of 0.
\<close>

theorem delay_near_jitter_interval_witness:
  "Validate \<lparr>MaxAttempts = 3, InitialDelay = 3, MaxDelay = 3, Multiplier = Finite 1,
       Jitter = Finite (1 / 2)\<rparr> = None
   \<and> (\<exists>x. 7 / 8 \<le> x \<and> x \<le> 41 / 8
          \<and> delay \<lparr>MaxAttempts = 3, InitialDelay = 3, MaxDelay = 3, Multiplier = Finite 1,
               Jitter = Finite (1 / 2)\<rparr> 1 (Finite 0) = \<lfloor>x :: real\<rfloor>)
   \<and> Validate \<lparr>MaxAttempts = 3, InitialDelay = 1000, MaxDelay = 10000, Multiplier = Finite 2,
       Jitter = Finite 0\<rparr> = None
   \<and> delay \<lparr>MaxAttempts = 3, InitialDelay = 1000, MaxDelay = 10000, Multiplier = Finite 2,
       Jitter = Finite 0\<rparr> 3 (Finite 0) = 4000
   \<and> delay \<lparr>MaxAttempts = 3, InitialDelay = 0, MaxDelay = 10000, Multiplier = Finite 2,
       Jitter = Finite 0\<rparr> 1 (Finite 0) = 0
   \<and> backoff \<lparr>MaxAttempts = 3, InitialDelay = 0, MaxDelay = 10000, Multiplier = Finite 2,
       Jitter = Finite 0\<rparr> quiet_world Caller 1 = None"
proof -
  have p: "math_Pow (Finite 2) (float64_of_int 2) = Finite (2 ^ 2)"
    using math_Pow_two [of 2] by simp
  have r: "representable 4000" using representable_int [of 4000] by simp
  show ?thesis
    using delay_near_jitter_interval [of "\<lparr>MaxAttempts = 3, InitialDelay = 3, MaxDelay = 3,
        Multiplier = Finite 1, Jitter = Finite (1 / 2)\<rparr>" 1 1 "1 / 2" 0]
      delay_near_jitter_interval [of "\<lparr>MaxAttempts = 3, InitialDelay = 1000, MaxDelay = 10000,
        Multiplier = Finite 2, Jitter = Finite 0\<rparr>" 3 2 0 0]
      delay_near_jitter_interval [of "\<lparr>MaxAttempts = 3, InitialDelay = 0, MaxDelay = 10000,
        Multiplier = Finite 2, Jitter = Finite 0\<rparr>" 1 2 0 0 quiet_world Caller "Finite 0"]
    by (simp add: Validate_def base_def float_value_def fgt_def math_Pow_0 representable_0 p r)
qed

text \<open>
  C8 fails as stated: with \<open>InitialDelay = MaxDelay = 3ns\<close>, multiplier 1, a jitter fraction of
  one half and the draw 0, \<open>base * (1 - j)\<close> is 1.5ns and the delay is 1ns. No operation of
  this computation rounds; the conversion to a duration discards the fraction.
\<close>

theorem delay_below_jitter_interval:
  "Validate \<lparr>MaxAttempts = 3, InitialDelay = 3, MaxDelay = 3, Multiplier = Finite 1,
       Jitter = Finite (1 / 2)\<rparr> = None
   \<and> \<not> base \<lparr>MaxAttempts = 3, InitialDelay = 3, MaxDelay = 3, Multiplier = Finite 1,
           Jitter = Finite (1 / 2)\<rparr> 1
         * (1 - float_value (Jitter \<lparr>MaxAttempts = 3, InitialDelay = 3, MaxDelay = 3,
              Multiplier = Finite 1, Jitter = Finite (1 / 2)\<rparr>))
       \<le> real_of_int (delay \<lparr>MaxAttempts = 3, InitialDelay = 3, MaxDelay = 3,
              Multiplier = Finite 1, Jitter = Finite (1 / 2)\<rparr> 1 (Finite 0))"
proof -
  have r: "round64 3 = Finite 3" "round64 0 = Finite 0" "round64 (3 / 2) = Finite (3 / 2)"
    using round64_int [of 3] round64_int [of 0] round64_half [of 3] by simp_all
  have i: "float64_of_int 3 = Finite 3" using float64_of_int_exact [of 3] by simp
  show ?thesis
    by (simp add: Validate_def delay_def capped_def fgt_def fsub_def math_Pow_0 i r
        Duration_of_float_def base_def float_value_def)
qed

section \<open>Properties of Run\<close>

lemma fst_after [simp]: "fst (after evs r) = fst r"
  by (simp add: after_def)

lemma snd_after [simp]: "snd (after evs r) = evs @ snd r"
  by (simp add: after_def)

lemma runDetectors_first_failure:
  assumes "\<forall>x\<in>set pre. Detect x ctx prompt = None" and "Detect d ctx prompt = Some e"
  shows "runDetectors (pre @ d # post) ctx prompt =
           (Some (DetectionError (Detector_Name d) (Some e)),
            map (\<lambda>x. Detect_call (Detector_Name x)) (pre @ [d]))"
  using assms by (induction pre) (simp_all add: after_def)

lemma runDetectors_pass:
  "\<forall>x\<in>set ds. Detect x ctx prompt = None \<Longrightarrow> fst (runDetectors ds ctx prompt) = None"
  by (induction ds) simp_all

text \<open>
  C3. When some configured detector rejects the prompt, Run returns the DetectionError
  that carries the name and the error of the first detector to reject it; the log of the run
  holds the calls of the detectors up to that one and nothing else, so no later detector
  and no generation client is called and no backoff or retry takes place; and the
  classifier would not retry the error.
\<close>

theorem Run_detection_terminal:
  assumes "\<exists>d\<in>set (detectors g). Detect d (run_context g ctx) prompt \<noteq> None"
  shows "\<exists>pre d post e.
           detectors g = pre @ d # post
           \<and> (\<forall>x\<in>set pre. Detect x (run_context g ctx) prompt = None)
           \<and> Detect d (run_context g ctx) prompt = Some e
           \<and> fst (Run g w ctx prompt) = Inl (DetectionError (Detector_Name d) (Some e))
           \<and> snd (Run g w ctx prompt) = map (\<lambda>x. Detect_call (Detector_Name x)) (pre @ [d])
           \<and> (\<forall>a. Generate_call a \<notin> set (snd (Run g w ctx prompt))
                    \<and> Backoff_call a \<notin> set (snd (Run g w ctx prompt)))
           \<and> \<not> shouldRetry (Some (DetectionError (Detector_Name d) (Some e)))"
proof -
  let ?ctx = "run_context g ctx"
  from assms obtain pre d post where
    split: "detectors g = pre @ d # post" and
    rej: "Detect d ?ctx prompt \<noteq> None" and
    pass: "\<forall>x\<in>set pre. \<not> Detect x ?ctx prompt \<noteq> None"
    using split_list_first_prop [of "detectors g" "\<lambda>d. Detect d ?ctx prompt \<noteq> None"] by blast
  from rej obtain e where e: "Detect d ?ctx prompt = Some e" by blast
  from pass have pass': "\<forall>x\<in>set pre. Detect x ?ctx prompt = None" by simp
  have rd: "runDetectors (detectors g) ?ctx prompt =
              (Some (DetectionError (Detector_Name d) (Some e)),
               map (\<lambda>x. Detect_call (Detector_Name x)) (pre @ [d]))"
    unfolding split using pass' e by (rule runDetectors_first_failure)
  have run: "Run g w ctx prompt =
              (Inl (DetectionError (Detector_Name d) (Some e)),
               map (\<lambda>x. Detect_call (Detector_Name x)) (pre @ [d]))"
    by (simp add: Run_def Let_def rd)
  have quiet: "\<forall>a. Generate_call a \<notin> set (snd (Run g w ctx prompt))
                    \<and> Backoff_call a \<notin> set (snd (Run g w ctx prompt))"
    by (auto simp: run)
  have "\<not> shouldRetry (Some (DetectionError (Detector_Name d) (Some e)))"
    by (simp add: shouldRetry_def detection_in_chain)
  with split pass' e run quiet show ?thesis by (intro exI conjI) simp_all
qed

text \<open>One turn of the loop, in terms of the outcome of the attempt.\<close>

lemma retry_loop_step:
  assumes "attempt < MaxAttempts (retry g)"
    and "0 < attempt \<longrightarrow> backoff (retry g) w ctx attempt = None"
    and "client g = Some c"
  shows "fst (retry_loop g w ctx prompt attempt lastErr) =
           (case attempt_outcome g ctx prompt attempt of
              Inl e \<Rightarrow>
                if \<not> shouldRetry (Some e) then Inl e
                else fst (retry_loop g w ctx prompt (attempt + 1) (Some e))
            | Inr (output, parsed) \<Rightarrow>
                Inr \<lparr>Raw = output, Parsed = parsed,
                     Metadata = \<lparr>Attempts = attempt + 1, Duration = time_Since w attempt\<rparr>\<rparr>)"
proof -
  have b: "(if attempt > 0 then backoff (retry g) w ctx attempt else None) = None"
    using assms(2) by simp
  show ?thesis
    apply (subst retry_loop.simps)
    apply (simp only: assms(1) if_True b option.case assms(3) fst_after)
    apply (simp add: attempt_outcome_def assms(3) Let_def split: sum.splits option.splits prod.splits)
    done
qed

lemma retry_loop_exhausted:
  "\<not> attempt < MaxAttempts (retry g) \<Longrightarrow>
   fst (retry_loop g w ctx prompt attempt lastErr) =
     Inl (MaxRetriesError (MaxAttempts (retry g)) lastErr)"
  by (subst retry_loop.simps) simp

lemma retry_loop_succeeds_at:
  assumes c: "client g = Some c"
    and k: "k \<le> MaxAttempts (retry g)"
    and fails: "\<forall>i. 0 \<le> i \<and> i < k - 1 \<longrightarrow>
                  (\<exists>e. attempt_outcome g ctx prompt i = Inl e \<and> shouldRetry (Some e))"
    and waits: "\<forall>i. 0 < i \<and> i < k \<longrightarrow> backoff (retry g) w ctx i = None"
    and ok: "attempt_outcome g ctx prompt (k - 1) = Inr (output, parsed)"
  shows "0 \<le> a \<Longrightarrow> a \<le> k - 1 \<Longrightarrow>
         fst (retry_loop g w ctx prompt a lastErr) =
           Inr \<lparr>Raw = output, Parsed = parsed,
                Metadata = \<lparr>Attempts = k, Duration = time_Since w (k - 1)\<rparr>\<rparr>"
proof (induction "nat (k - 1 - a)" arbitrary: a lastErr)
  case 0
  then have a: "a = k - 1" by simp
  have lt: "a < MaxAttempts (retry g)" using a k by simp
  have bo: "0 < a \<longrightarrow> backoff (retry g) w ctx a = None" using waits a by simp
  show ?case
    by (simp add: retry_loop_step [OF lt bo c]) (simp add: a ok)
next
  case (Suc n)
  then have a: "0 \<le> a" "a < k - 1" by simp_all
  have lt: "a < MaxAttempts (retry g)" using a k by simp
  have bo: "0 < a \<longrightarrow> backoff (retry g) w ctx a = None" using waits a by simp
  from fails a obtain e where
    e: "attempt_outcome g ctx prompt a = Inl e" "shouldRetry (Some e)" by blast
  have n: "n = nat (k - 1 - (a + 1))" using Suc.hyps(2) by simp
  have "fst (retry_loop g w ctx prompt a lastErr) =
          fst (retry_loop g w ctx prompt (a + 1) (Some e))"
    by (simp add: retry_loop_step [OF lt bo c] e)
  also have "\<dots> = Inr \<lparr>Raw = output, Parsed = parsed,
                Metadata = \<lparr>Attempts = k, Duration = time_Since w (k - 1)\<rparr>\<rparr>"
    using a by (intro Suc.hyps(1) [OF n]) simp_all
  finally show ?case .
qed

lemma retry_loop_exhausts:
  assumes c: "client g = Some c"
    and fails: "\<forall>i. 0 \<le> i \<and> i < MaxAttempts (retry g) \<longrightarrow>
                  (\<exists>e. attempt_outcome g ctx prompt i = Inl e \<and> shouldRetry (Some e))"
    and waits: "\<forall>i. 0 < i \<and> i < MaxAttempts (retry g) \<longrightarrow> backoff (retry g) w ctx i = None"
  shows "0 \<le> a \<Longrightarrow> a < MaxAttempts (retry g) \<Longrightarrow>
         \<exists>e. attempt_outcome g ctx prompt (MaxAttempts (retry g) - 1) = Inl e
              \<and> fst (retry_loop g w ctx prompt a lastErr) =
                  Inl (MaxRetriesError (MaxAttempts (retry g)) (Some e))"
proof (induction "nat (MaxAttempts (retry g) - 1 - a)" arbitrary: a lastErr)
  case 0
  then have a: "a = MaxAttempts (retry g) - 1" by simp
  have lt: "a < MaxAttempts (retry g)" using a by simp
  have bo: "0 < a \<longrightarrow> backoff (retry g) w ctx a = None" using waits lt by simp
  from fails "0.prems" obtain e where
    e: "attempt_outcome g ctx prompt a = Inl e" "shouldRetry (Some e)" by blast
  have "fst (retry_loop g w ctx prompt a lastErr) =
          fst (retry_loop g w ctx prompt (a + 1) (Some e))"
    by (simp add: retry_loop_step [OF lt bo c] e)
  also have "\<dots> = Inl (MaxRetriesError (MaxAttempts (retry g)) (Some e))"
    using a by (intro retry_loop_exhausted) simp
  finally show ?case using e(1) a by auto
next
  case (Suc n)
  then have a: "0 \<le> a" "a < MaxAttempts (retry g) - 1" by simp_all
  then have lt: "a < MaxAttempts (retry g)" by simp
  have bo: "0 < a \<longrightarrow> backoff (retry g) w ctx a = None" using waits lt by simp
  from fails a lt obtain e where
    e: "attempt_outcome g ctx prompt a = Inl e" "shouldRetry (Some e)" by blast
  have n: "n = nat (MaxAttempts (retry g) - 1 - (a + 1))" using Suc.hyps(2) by simp
  have step: "fst (retry_loop g w ctx prompt a lastErr) =
          fst (retry_loop g w ctx prompt (a + 1) (Some e))"
    by (simp add: retry_loop_step [OF lt bo c] e)
  from a have "0 \<le> a + 1" "a + 1 < MaxAttempts (retry g)" by simp_all
  from Suc.hyps(1) [OF n this, of "Some e"] step show ?case by simp
qed

lemma Run_after_detectors:
  assumes "fst (runDetectors (detectors g) (run_context g ctx) prompt) = None"
  shows "fst (Run g w ctx prompt) = fst (retry_loop g w (run_context g ctx) prompt 0 None)"
proof -
  from assms obtain evs where
    "runDetectors (detectors g) (run_context g ctx) prompt = (None, evs)"
    by (cases "runDetectors (detectors g) (run_context g ctx) prompt") simp
  then show ?thesis by (simp add: Run_def Let_def)
qed

text \<open>
  C7. When every detector passes, each of the attempts 1 to \<open>k - 1\<close> ends in a failure that
  the classifier retries, no wait before the attempts 2 to \<open>k\<close> is cut short by the context,
  and attempt \<open>k \<le> MaxAttempts\<close> succeeds in all three stages, Run returns the Result of
  attempt \<open>k\<close> with \<open>Metadata.Attempts = k\<close>. Attempt \<open>k\<close> is iteration \<open>k - 1\<close> of the loop.
\<close>

theorem Run_success_attempt_count:
  assumes "\<forall>d\<in>set (detectors g). Detect d (run_context g ctx) prompt = None"
    and "client g = Some c"
    and "1 \<le> k" and "k \<le> MaxAttempts (retry g)"
    and "\<forall>i. 0 \<le> i \<and> i < k - 1 \<longrightarrow>
           (\<exists>e. attempt_outcome g (run_context g ctx) prompt i = Inl e \<and> shouldRetry (Some e))"
    and "\<forall>i. 0 < i \<and> i < k \<longrightarrow> backoff (retry g) w (run_context g ctx) i = None"
    and "attempt_outcome g (run_context g ctx) prompt (k - 1) = Inr (output, parsed)"
  shows "\<exists>r. fst (Run g w ctx prompt) = Inr r \<and> Attempts (Metadata r) = k
             \<and> Raw r = output \<and> Parsed r = parsed"
proof -
  let ?ctx = "run_context g ctx"
  have d: "fst (runDetectors (detectors g) ?ctx prompt) = None"
    using assms(1) by (rule runDetectors_pass)
  have "fst (Run g w ctx prompt) = fst (retry_loop g w ?ctx prompt 0 None)"
    using d by (rule Run_after_detectors)
  also have "\<dots> = Inr \<lparr>Raw = output, Parsed = parsed,
                Metadata = \<lparr>Attempts = k, Duration = time_Since w (k - 1)\<rparr>\<rparr>"
    using assms(3) by (intro retry_loop_succeeds_at [OF assms(2,4,5,6,7)]) simp_all
  finally show ?thesis by simp
qed

text \<open>
  C5. When every detector passes, every one of the \<open>MaxAttempts\<close> attempts ends in a failure
  that the classifier retries, and no wait between them is cut short by the context, Run
  returns a MaxRetriesError whose \<open>Attempts\<close> is \<open>MaxAttempts\<close> and whose \<open>LastErr\<close> is the
  wrapped failure of the last attempt.
\<close>

theorem Run_retries_exhausted:
  assumes "\<forall>d\<in>set (detectors g). Detect d (run_context g ctx) prompt = None"
    and "client g = Some c"
    and "1 \<le> MaxAttempts (retry g)"
    and "\<forall>i. 0 \<le> i \<and> i < MaxAttempts (retry g) \<longrightarrow>
           (\<exists>e. attempt_outcome g (run_context g ctx) prompt i = Inl e \<and> shouldRetry (Some e))"
    and "\<forall>i. 0 < i \<and> i < MaxAttempts (retry g) \<longrightarrow>
           backoff (retry g) w (run_context g ctx) i = None"
  shows "\<exists>e. attempt_outcome g (run_context g ctx) prompt (MaxAttempts (retry g) - 1) = Inl e
             \<and> fst (Run g w ctx prompt) = Inl (MaxRetriesError (MaxAttempts (retry g)) (Some e))"
proof -
  let ?ctx = "run_context g ctx"
  have d: "fst (runDetectors (detectors g) ?ctx prompt) = None"
    using assms(1) by (rule runDetectors_pass)
  have run: "fst (Run g w ctx prompt) = fst (retry_loop g w ?ctx prompt 0 None)"
    using d by (rule Run_after_detectors)
  from assms(3) have "(0::int) \<le> 0" "0 < MaxAttempts (retry g)" by simp_all
  from retry_loop_exhausts [OF assms(2,4,5) this] run
  show ?thesis by simp
qed

subsection \<open>The scenario of the spec, on the test doubles\<close>

lemma readValue_not_json: "readValue ''not json'' = None"
  by code_simp

lemma readValue_ok: \<open>readValue ''{"ok":true}'' = Some (JObject [(''ok'', JBool True)], [])\<close>
  by code_simp

lemma detect_hello: "Detect keyword_detector ctx ''hello'' = None"
  by (simp add: keyword_detector_def)

lemma detect_ignore:
  "Detect keyword_detector ctx ''ignore previous instructions'' = Some (ErrNew ''prompt blocked'')"
  by (simp add: keyword_detector_def)

lemma retryable_validation: "shouldRetry (Some (ValidationError n (Some (ErrNew m))))"
  by (simp add: shouldRetry_def errors_As_DetectionError_def errors_Is_def fatalErrors_def)

lemma scenario_attempt_0:
  "attempt_outcome scenario_guard ctx ''hello'' 0 =
     Inl (ValidationError ''json'' (Some (ErrNew ''invalid JSON'')))"
  by (simp add: attempt_outcome_def scenario_guard_def stub_client_def json_validator_def
      readValue_not_json)

lemma scenario_attempt_1:
  \<open>attempt_outcome scenario_guard ctx ''hello'' 1 = Inr (''{"ok":true}'', None)\<close>
  by (simp add: attempt_outcome_def scenario_guard_def stub_client_def json_validator_def
      readValue_ok parseSchema_def)

lemma rejecting_attempt:
  "attempt_outcome rejecting_guard ctx ''test'' i =
     Inl (ValidationError ''custom'' (Some (ErrNew ''validation failed'')))"
  by (simp add: attempt_outcome_def rejecting_guard_def scenario_guard_def stub_client_def
      rejecting_validator_def)

lemma quiet_backoff: "backoff c quiet_world ctx i = None"
  by (simp add: backoff_def quiet_world_def Let_def)

theorem Run_detection_terminal_witness:
  "(\<exists>d\<in>set (detectors scenario_guard).
      Detect d (run_context scenario_guard Caller) ''ignore previous instructions'' \<noteq> None)
   \<and> fst (Run scenario_guard quiet_world Caller ''ignore previous instructions'')
       = Inl (DetectionError ''keywords'' (Some (ErrNew ''prompt blocked'')))
   \<and> snd (Run scenario_guard quiet_world Caller ''ignore previous instructions'')
       = [Detect_call ''keywords'']"
proof -
  let ?p = "''ignore previous instructions''"
  have ds: "detectors scenario_guard = [keyword_detector]" by (simp add: scenario_guard_def)
  have h: "\<exists>d\<in>set (detectors scenario_guard).
             Detect d (run_context scenario_guard Caller) ?p \<noteq> None"
    by (simp add: ds detect_ignore)
  from Run_detection_terminal [OF h, of quiet_world] obtain pre d post e where
    split: "detectors scenario_guard = pre @ d # post" and
    e: "Detect d (run_context scenario_guard Caller) ?p = Some e" and
    r: "fst (Run scenario_guard quiet_world Caller ?p) = Inl (DetectionError (Detector_Name d) (Some e))" and
    l: "snd (Run scenario_guard quiet_world Caller ?p) =
          map (\<lambda>x. Detect_call (Detector_Name x)) (pre @ [d])"
    by blast
  from split ds have d: "pre = []" "d = keyword_detector"
    by (simp_all add: Cons_eq_append_conv)
  from e d have "e = ErrNew ''prompt blocked''" by (simp add: detect_ignore)
  with r l d h show ?thesis by (simp add: keyword_detector_def)
qed

theorem Run_success_attempt_count_witness:
  "\<exists>r. fst (Run scenario_guard quiet_world Caller ''hello'') = Inr r
        \<and> Attempts (Metadata r) = 2"
proof -
  let ?ctx = "run_context scenario_guard Caller"
  have 1: "\<forall>d\<in>set (detectors scenario_guard). Detect d ?ctx ''hello'' = None"
    by (simp add: scenario_guard_def detect_hello)
  have 2: "client scenario_guard = Some stub_client" by (simp add: scenario_guard_def)
  have 3: "(1::int) \<le> 2" by simp
  have 4: "2 \<le> MaxAttempts (retry scenario_guard)" by (simp add: scenario_guard_def)
  have "\<And>i::int. 0 \<le> i \<and> i < 2 - 1 \<Longrightarrow> i = 0" by simp
  then have 5: "\<forall>i. 0 \<le> i \<and> i < 2 - 1 \<longrightarrow>
           (\<exists>e. attempt_outcome scenario_guard ?ctx ''hello'' i = Inl e \<and> shouldRetry (Some e))"
    using scenario_attempt_0 retryable_validation by metis
  have 6: "\<forall>i. 0 < i \<and> i < 2 \<longrightarrow> backoff (retry scenario_guard) quiet_world ?ctx i = None"
    by (simp add: quiet_backoff)
  have 7: \<open>attempt_outcome scenario_guard ?ctx ''hello'' (2 - 1) = Inr (''{"ok":true}'', None)\<close>
    by (simp add: scenario_attempt_1)
  from Run_success_attempt_count [OF 1 2 3 4 5 6 7] show ?thesis by blast
qed

theorem Run_retries_exhausted_witness:
  "fst (Run rejecting_guard quiet_world Caller ''test'') =
     Inl (MaxRetriesError 2 (Some (ValidationError ''custom'' (Some (ErrNew ''validation failed'')))))"
proof -
  let ?ctx = "run_context rejecting_guard Caller"
  have m: "MaxAttempts (retry rejecting_guard) = 2"
    by (simp add: rejecting_guard_def scenario_guard_def)
  have 1: "\<forall>d\<in>set (detectors rejecting_guard). Detect d ?ctx ''test'' = None"
    by (simp add: rejecting_guard_def scenario_guard_def keyword_detector_def)
  have 2: "client rejecting_guard = Some stub_client"
    by (simp add: rejecting_guard_def scenario_guard_def)
  have 3: "1 \<le> MaxAttempts (retry rejecting_guard)" by (simp add: m)
  have 4: "\<forall>i. 0 \<le> i \<and> i < MaxAttempts (retry rejecting_guard) \<longrightarrow>
           (\<exists>e. attempt_outcome rejecting_guard ?ctx ''test'' i = Inl e \<and> shouldRetry (Some e))"
    by (simp add: rejecting_attempt retryable_validation)
  have 5: "\<forall>i. 0 < i \<and> i < MaxAttempts (retry rejecting_guard) \<longrightarrow>
           backoff (retry rejecting_guard) quiet_world ?ctx i = None"
    by (simp add: quiet_backoff)
  from Run_retries_exhausted [OF 1 2 3 4 5] show ?thesis
    by (simp add: m rejecting_attempt)
qed

section \<open>Properties of the schema step\<close>

lemma readValue_not_blank:
  assumes "readValue data = Some (j, rest)"
  shows "dropWhile isSpace data \<noteq> []"
proof
  assume e: "dropWhile isSpace data = []"
  have "next_token data = None" by (simp only: next_token_def e list.case)
  then have "readValue data = None" by (simp add: readValue_def scan.simps [of _ _ data])
  with assms show False by simp
qed

lemma strict_rejects_unknown:
  "has_unknown t j \<Longrightarrow> \<forall>cur. isl (decode_into True t j cur)"
  "has_unknown_member fs ms \<Longrightarrow> \<forall>vals. isl (decode_members True fs ms vals)"
proof (induction t j and fs ms rule: has_unknown_has_unknown_member.induct)
  case (1 t ms)
  from "1.prems" obtain fs where t: "t = TStruct fs" and u: "has_unknown_member fs ms"
    by (cases t) simp_all
  show ?case
  proof (rule allI)
    fix cur
    from "1.IH" [OF t u] obtain e where
      "decode_members True fs ms (struct_fields cur fs) = Inl e"
      by (auto simp: isl_def)
    then show "isl (decode_into True t (JObject ms) cur)" by (simp add: t)
  qed
next
  case (8 fs key v ms)
  show ?case
  proof (cases "find_field fs key")
    case None
    then show ?thesis by simp
  next
    case (Some f)
    obtain n t where f: "f = (n, t)" by (cases f)
    from "8.prems" Some f have "has_unknown t v \<or> has_unknown_member fs ms" by simp
    then show ?thesis
    proof
      assume "has_unknown t v"
      with "8.IH"(1) Some f have a: "\<forall>cur. isl (decode_into True t v cur)" by simp
      show ?thesis
      proof (rule allI)
        fix vals
        from a obtain e where "decode_into True t v (field_value vals n t) = Inl e"
          by (auto simp: isl_def)
        with Some f show "isl (decode_members True fs ((key, v) # ms) vals)" by simp
      qed
    next
      assume "has_unknown_member fs ms"
      with "8.IH"(2) Some f have a: "\<forall>vals. isl (decode_members True fs ms vals)" by simp
      show ?thesis
      proof (rule allI)
        fix vals
        show "isl (decode_members True fs ((key, v) # ms) vals)"
        proof (cases "decode_into True t v (field_value vals n t)")
          case (Inl e)
          with Some f show ?thesis by simp
        next
          case (Inr x)
          with Some f a show ?thesis by simp
        qed
      qed
    qed
  qed
qed simp_all

lemma lenient_decodes_stripped:
  "\<forall>cur. decode_into False t j cur = decode_into True t (strip_unknown t j) cur"
  "\<forall>vals. decode_members False fs ms vals = decode_members True fs (strip_members fs ms) vals"
proof (induction t j and fs ms rule: strip_unknown_strip_members.induct)
  case (1 t ms)
  then show ?case by (cases t) simp_all
next
  case (8 fs key v ms)
  show ?case
  proof (cases "find_field fs key")
    case None
    with "8.IH"(1) show ?thesis by simp
  next
    case (Some f)
    obtain n t where f: "f = (n, t)" by (cases f)
    from "8.IH"(2) [OF Some f [symmetric]] "8.IH"(3) [OF Some f [symmetric]] Some f
    show ?thesis by (simp split: sum.splits)
  qed
qed simp_all

lemma Unmarshal_strict_unknown:
  assumes "strict s" and "readValue data = Some (j, rest)" and "has_unknown (targetType s) j"
  shows "\<exists>e. Unmarshal s data = Inl e"
proof -
  from assms(2) have nb: "dropWhile isSpace data \<noteq> []" by (rule readValue_not_blank)
  from strict_rejects_unknown(1) [OF assms(3)]
  have "isl (decode_into True (targetType s) j (zero_value (targetType s)))" by simp
  then obtain e where "decode_into True (targetType s) j (zero_value (targetType s)) = Inl e"
    by (auto simp: isl_def)
  with assms(1,2) nb show ?thesis by (simp add: Unmarshal_def Decode_def)
qed

lemma Unmarshal_lenient:
  assumes "\<not> strict s" and "readValue data = Some (j, rest)" and "\<not> More rest"
    and "decode_into True (targetType s) (strip_unknown (targetType s) j)
           (zero_value (targetType s)) = Inr v"
  shows "Unmarshal s data = Inr v"
proof -
  from assms(2) have nb: "dropWhile isSpace data \<noteq> []" by (rule readValue_not_blank)
  from lenient_decodes_stripped(1) assms(4)
  have "decode_into False (targetType s) j (zero_value (targetType s)) = Inr v" by simp
  with assms(1,2,3) nb show ?thesis by (simp add: Unmarshal_def Decode_def)
qed

lemma NewSchema_strict: "NewSchema v = Inr s \<Longrightarrow> strict s"
  by (cases v rule: NewSchema.cases) auto

text \<open>
  C6. A newly constructed Schema is strict. In strict mode Unmarshal returns an error for
  every input whose JSON value holds a key that matches no field of the captured struct
  shape. With strictness disabled, the same input is decoded successfully whenever unknown
  fields are its only defect: nothing follows the value and, the unknown members set aside,
  the value decodes in strict mode; the result is that decoded value.
\<close>

theorem Unmarshal_unknown_fields:
  "(NewSchema v = Inr s0 \<longrightarrow> strict s0)
   \<and> (strict s \<and> readValue data = Some (j, rest) \<and> has_unknown (targetType s) j
        \<longrightarrow> (\<exists>e. Unmarshal s data = Inl e))
   \<and> (strict s \<and> readValue data = Some (j, rest) \<and> has_unknown (targetType s) j
        \<and> \<not> More rest
        \<and> decode_into True (targetType s) (strip_unknown (targetType s) j)
             (zero_value (targetType s)) = Inr val
        \<longrightarrow> (\<exists>e. Unmarshal s data = Inl e) \<and> Unmarshal (WithStrict s False) data = Inr val)"
proof -
  have a: "NewSchema v = Inr s0 \<longrightarrow> strict s0" by (simp add: NewSchema_strict)
  have b: "strict s \<and> readValue data = Some (j, rest) \<and> has_unknown (targetType s) j
        \<longrightarrow> (\<exists>e. Unmarshal s data = Inl e)"
    by (blast intro: Unmarshal_strict_unknown)
  have c: "readValue data = Some (j, rest) \<and> \<not> More rest
        \<and> decode_into True (targetType s) (strip_unknown (targetType s) j)
             (zero_value (targetType s)) = Inr val
        \<longrightarrow> Unmarshal (WithStrict s False) data = Inr val"
    using Unmarshal_lenient [of "WithStrict s False" data j rest val]
    by (simp add: WithStrict_def)
  from a b c show ?thesis by blast
qed

lemma readValue_name_extra:
  \<open>readValue ''{"name":"x","extra":"y"}'' =
     Some (JObject [(''name'', JString ''x''), (''extra'', JString ''y'')], [])\<close>
  by code_simp

lemma find_field_name: "find_field [(''name'', TString)] ''name'' = Some (''name'', TString)"
  by (simp add: find_field_def)

lemma find_field_extra: "find_field [(''name'', TString)] ''extra'' = None"
  by (simp add: find_field_def foldName_def foldChar_def)

theorem Unmarshal_unknown_fields_witness:
  \<open>NewSchema (Some (Ptr (Plain (TStruct [(''name'', TString)])))) = Inr (name_schema True)
   \<and> strict (name_schema True)
   \<and> (\<exists>e. Unmarshal (name_schema True) ''{"name":"x","extra":"y"}'' = Inl e)
   \<and> Unmarshal (WithStrict (name_schema True) False) ''{"name":"x","extra":"y"}''
       = Inr (VStruct [(''name'', VString ''x'')])\<close>
proof -
  let ?j = "JObject [(''name'', JString ''x''), (''extra'', JString ''y'')]"
  have n: "NewSchema (Some (Ptr (Plain (TStruct [(''name'', TString)])))) = Inr (name_schema True)"
    by (simp add: name_schema_def)
  have t: "targetType (name_schema True) = TStruct [(''name'', TString)]"
    and s: "strict (name_schema True)"
    by (simp_all add: name_schema_def)
  have u: "has_unknown (targetType (name_schema True)) ?j"
    by (simp add: t find_field_name find_field_extra)
  have m: "\<not> More []" by (simp add: More_def)
  have d: "decode_into True (targetType (name_schema True))
             (strip_unknown (targetType (name_schema True)) ?j)
             (zero_value (targetType (name_schema True))) = Inr (VStruct [(''name'', VString ''x'')])"
    by (simp add: t find_field_name find_field_extra struct_fields_def field_value_def
        set_field_def)
  from Unmarshal_unknown_fields [of "Some (Ptr (Plain (TStruct [(''name'', TString)])))"
      "name_schema True" "name_schema True" _ ?j "[]" "VStruct [(''name'', VString ''x'')]"]
    n s u m d readValue_name_extra
  show ?thesis by simp
qed

text \<open>
  C1, at an input on which it fails. \<open>{"name":"x"}\<close> is one well-formed JSON value and the
  trailing \<open>}\<close> is not white space, yet Unmarshal returns the decoded struct without an
  error, in strict and in non-strict mode: \<open>Decoder.More\<close> does not count a \<open>}\<close> or \<open>]\<close> as
  more input.
\<close>

theorem Unmarshal_accepts_trailing_brace:
  \<open>readValue ''{"name":"x"}'' = Some (JObject [(''name'', JString ''x'')], [])
   \<and> Unmarshal (name_schema True) ''{"name":"x"}}'' = Inr (VStruct [(''name'', VString ''x'')])
   \<and> Unmarshal (name_schema False) ''{"name":"x"}}'' = Inr (VStruct [(''name'', VString ''x'')])
   \<and> Unmarshal (name_schema True) ''{"name":"x"}]GARBAGE''
       = Inr (VStruct [(''name'', VString ''x'')])\<close>
  by code_simp

subsection \<open>Decoding twice\<close>

lemma Schema_Unmarshal_result:
  assumes "schema_at m sp = Some s"
  shows "\<exists>m'. schema_at m' = schema_at m \<and> next_free m' = Suc (next_free m)
           \<and> (\<forall>p. p \<noteq> next_free m \<longrightarrow> value_at m' p = value_at m p)
           \<and> (case Unmarshal s data of
                 Inl e \<Rightarrow> Schema_Unmarshal sp data m = (Inl e, m')
               | Inr v \<Rightarrow> Schema_Unmarshal sp data m = (Inr (next_free m), m')
                          \<and> value_at m' (next_free m) = Some v)"
  using assms
  by (auto simp: Schema_Unmarshal_def Unmarshal_def reflect_New_def Let_def
      split: sum.splits prod.splits)

lemma Schema_Unmarshal_outcome:
  assumes "schema_at m sp = Some s"
  shows "outcome (Schema_Unmarshal sp data m) =
           (case Unmarshal s data of Inl e \<Rightarrow> Inl e | Inr v \<Rightarrow> Inr (Some v))"
proof -
  from Schema_Unmarshal_result [OF assms, of data] obtain m' where
    "case Unmarshal s data of
       Inl e \<Rightarrow> Schema_Unmarshal sp data m = (Inl e, m')
     | Inr v \<Rightarrow> Schema_Unmarshal sp data m = (Inr (next_free m), m')
                \<and> value_at m' (next_free m) = Some v"
    by blast
  then show ?thesis by (cases "Unmarshal s data") (simp_all add: outcome_def)
qed

text \<open>
  C9. Decoding the same text twice through the same Schema, the second call running on
  the memory the first one left, yields equal decoded values both times: the schema object
  is not changed, both calls fail with the same error or both return a pointer, the two
  pointers differ, and behind both lies the same value, which the second call does not
  disturb. What Unmarshal hands to its caller depends on the input bytes, the captured
  target type and the strictness flag only, not on the rest of the memory.
\<close>

theorem Schema_Unmarshal_twice:
  "(schema_at m sp = Some s \<longrightarrow>
      (\<exists>r1 m1 r2 m2.
         Schema_Unmarshal sp data m = (r1, m1) \<and> Schema_Unmarshal sp data m1 = (r2, m2)
         \<and> schema_at m2 sp = Some s
         \<and> outcome (r1, m1) = outcome (r1, m2)
         \<and> outcome (r1, m2) = outcome (r2, m2)
         \<and> (case Unmarshal s data of
               Inl e \<Rightarrow> r1 = Inl e \<and> r2 = Inl e
             | Inr v \<Rightarrow> \<exists>p1 p2. r1 = Inr p1 \<and> r2 = Inr p2 \<and> p1 \<noteq> p2
                          \<and> value_at m2 p1 = Some v \<and> value_at m2 p2 = Some v)))
   \<and> (schema_at m sp = Some s \<and> schema_at m' sp' = Some s'
        \<and> targetType s = targetType s' \<and> strict s = strict s'
      \<longrightarrow> outcome (Schema_Unmarshal sp data m) = outcome (Schema_Unmarshal sp' data m'))"
proof (intro conjI impI)
  assume s: "schema_at m sp = Some s"
  from Schema_Unmarshal_result [OF s, of data] obtain m1 where
    m1: "schema_at m1 = schema_at m" "next_free m1 = Suc (next_free m)"
    and r1: "case Unmarshal s data of
               Inl e \<Rightarrow> Schema_Unmarshal sp data m = (Inl e, m1)
             | Inr v \<Rightarrow> Schema_Unmarshal sp data m = (Inr (next_free m), m1)
                        \<and> value_at m1 (next_free m) = Some v"
    by blast
  from s m1 have s1: "schema_at m1 sp = Some s" by simp
  from Schema_Unmarshal_result [OF s1, of data] obtain m2 where
    m2: "schema_at m2 = schema_at m1"
    and keep: "\<forall>p. p \<noteq> next_free m1 \<longrightarrow> value_at m2 p = value_at m1 p"
    and r2: "case Unmarshal s data of
               Inl e \<Rightarrow> Schema_Unmarshal sp data m1 = (Inl e, m2)
             | Inr v \<Rightarrow> Schema_Unmarshal sp data m1 = (Inr (next_free m1), m2)
                        \<and> value_at m2 (next_free m1) = Some v"
    by blast
  from keep m1(2) have first: "value_at m2 (next_free m) = value_at m1 (next_free m)" by simp
  show "\<exists>r1 m1 r2 m2.
         Schema_Unmarshal sp data m = (r1, m1) \<and> Schema_Unmarshal sp data m1 = (r2, m2)
         \<and> schema_at m2 sp = Some s
         \<and> outcome (r1, m1) = outcome (r1, m2)
         \<and> outcome (r1, m2) = outcome (r2, m2)
         \<and> (case Unmarshal s data of
               Inl e \<Rightarrow> r1 = Inl e \<and> r2 = Inl e
             | Inr v \<Rightarrow> \<exists>p1 p2. r1 = Inr p1 \<and> r2 = Inr p2 \<and> p1 \<noteq> p2
                          \<and> value_at m2 p1 = Some v \<and> value_at m2 p2 = Some v)"
  proof (cases "Unmarshal s data")
    case (Inl e)
    with r1 r2 s1 m2 show ?thesis by (simp add: outcome_def)
  next
    case (Inr v)
    with r1 r2 s1 m2 m1(2) first show ?thesis by (simp add: outcome_def)
  qed
next
  assume a: "schema_at m sp = Some s \<and> schema_at m' sp' = Some s'
        \<and> targetType s = targetType s' \<and> strict s = strict s'"
  then have "Unmarshal s data = Unmarshal s' data" by (simp add: Unmarshal_def)
  with a show "outcome (Schema_Unmarshal sp data m) = outcome (Schema_Unmarshal sp' data m')"
    by (simp add: Schema_Unmarshal_outcome)
qed

lemma Unmarshal_name_x:
  \<open>Unmarshal (name_schema True) ''{"name":"x"}'' = Inr (VStruct [(''name'', VString ''x'')])\<close>
  by code_simp

theorem Schema_Unmarshal_twice_witness:
  \<open>\<exists>p1 m1 p2 m2.
     Schema_Unmarshal 0 ''{"name":"x"}''
       \<lparr>schema_at = [0 \<mapsto> name_schema True], value_at = Map.empty, next_free = 0\<rparr> = (Inr p1, m1)
     \<and> Schema_Unmarshal 0 ''{"name":"x"}'' m1 = (Inr p2, m2)
     \<and> p1 \<noteq> p2
     \<and> value_at m2 p1 = Some (VStruct [(''name'', VString ''x'')])
     \<and> value_at m2 p2 = Some (VStruct [(''name'', VString ''x'')])\<close>
proof -
  let ?m = "\<lparr>schema_at = [0 \<mapsto> name_schema True], value_at = Map.empty, next_free = 0\<rparr>"
  have s: "schema_at ?m 0 = Some (name_schema True)" by simp
  from Schema_Unmarshal_twice [of ?m 0 "name_schema True" \<open>''{"name":"x"}''\<close>] s
  obtain r1 m1 r2 m2 where
    1: \<open>Schema_Unmarshal 0 ''{"name":"x"}'' ?m = (r1, m1)\<close> and
    2: \<open>Schema_Unmarshal 0 ''{"name":"x"}'' m1 = (r2, m2)\<close> and
    3: \<open>case Unmarshal (name_schema True) ''{"name":"x"}'' of
          Inl e \<Rightarrow> r1 = Inl e \<and> r2 = Inl e
        | Inr v \<Rightarrow> \<exists>p1 p2. r1 = Inr p1 \<and> r2 = Inr p2 \<and> p1 \<noteq> p2
                     \<and> value_at m2 p1 = Some v \<and> value_at m2 p2 = Some v\<close>
    by blast
  from 3 obtain p1 p2 where "r1 = Inr p1" "r2 = Inr p2" "p1 \<noteq> p2"
    "value_at m2 p1 = Some (VStruct [(''name'', VString ''x'')])"
    "value_at m2 p2 = Some (VStruct [(''name'', VString ''x'')])"
    unfolding Unmarshal_name_x by auto
  with 1 2 show ?thesis by blast
qed

lemma Unmarshal_extra_strict:
  \<open>isl (Unmarshal (name_schema True) ''{"name":"x","extra":1}'')\<close>
  by code_simp

lemma Unmarshal_extra_lenient:
  \<open>Unmarshal (name_schema False) ''{"name":"x","extra":1}''
     = Inr (VStruct [(''name'', VString ''x'')])\<close>
  by code_simp

text \<open>
  What the two calls have in common is the schema object, and \<open>Unmarshal\<close> only reads it. A
  call of \<open>WithStrict\<close> between them writes it, and then the second call can differ from
  the first.
\<close>

lemma Schema_Unmarshal_after_WithStrict:
  \<open>isl (outcome (Schema_Unmarshal 0 ''{"name":"x","extra":1}''
          \<lparr>schema_at = [0 \<mapsto> name_schema True], value_at = Map.empty, next_free = 0\<rparr>))
   \<and> outcome (Schema_Unmarshal 0 ''{"name":"x","extra":1}''
          (snd (Schema_WithStrict 0 False
             \<lparr>schema_at = [0 \<mapsto> name_schema True], value_at = Map.empty, next_free = 0\<rparr>)))
       = Inr (Some (VStruct [(''name'', VString ''x'')]))\<close>
proof -
  let ?m = "\<lparr>schema_at = [0 \<mapsto> name_schema True], value_at = Map.empty, next_free = 0\<rparr>"
  have 1: "schema_at ?m 0 = Some (name_schema True)" by simp
  have 2: "schema_at (snd (Schema_WithStrict 0 False ?m)) 0 = Some (name_schema False)"
    by (simp add: Schema_WithStrict_def name_schema_def)
  show ?thesis
    unfolding Schema_Unmarshal_outcome [OF 1] Schema_Unmarshal_outcome [OF 2]
    using Unmarshal_extra_strict by (auto simp: Unmarshal_extra_lenient split: sum.splits)
qed

section \<open>Properties of New and the options\<close>

lemma apply_options_append:
  "apply_options (xs @ ys) g =
     (case apply_options xs g of Inl e \<Rightarrow> Inl e | Inr g' \<Rightarrow> apply_options ys g')"
  by (induction xs arbitrary: g) (simp_all split: sum.splits)

lemma New_applies:
  assumes "New opts = Inr g"
  shows "apply_options opts
           \<lparr>client = None, detectors = [], validators = [], schema = None,
            retry = DefaultRetryConfig, timeout = 0, strictSchema = False\<rparr> = Inr g"
  using assms by (auto simp: New_def Let_def split: sum.splits if_splits)

lemma apply_option_keeps_valid:
  assumes "apply_option opt g = Inr g'" and "Validate (retry g) = None"
  shows "Validate (retry g') = None"
proof (cases opt)
  case (WithMaxRetries n)
  with assms show ?thesis by (auto simp: Validate_None split: if_splits)
qed (use assms in \<open>auto split: option.splits sum.splits if_splits\<close>)

lemma apply_options_keep_valid:
  "apply_options opts g = Inr g' \<Longrightarrow> Validate (retry g) = None \<Longrightarrow> Validate (retry g') = None"
proof (induction opts arbitrary: g)
  case Nil
  then show ?case by simp
next
  case (Cons opt opts)
  from Cons.prems(1) obtain g1 where
    1: "apply_option opt g = Inr g1" and 2: "apply_options opts g1 = Inr g'"
    by (auto split: sum.splits)
  from apply_option_keeps_valid [OF 1 Cons.prems(2)] Cons.IH [OF 2] show ?case by simp
qed

text \<open>
  A guard that New returns has a client and a valid retry policy, in particular
  \<open>MaxAttempts \<ge> 1\<close>: the premises of the theorems about Run hold for every such guard.
\<close>

lemma New_guard_valid:
  assumes "New opts = Inr g"
  shows "(\<exists>c. client g = Some c) \<and> Validate (retry g) = None \<and> 1 \<le> MaxAttempts (retry g)"
proof -
  from assms have c: "client g \<noteq> None"
    by (auto simp: New_def Let_def split: sum.splits if_splits)
  from apply_options_keep_valid [OF New_applies [OF assms]]
  have v: "Validate (retry g) = None" by (simp add: Validate_Default)
  then have "1 \<le> MaxAttempts (retry g)" by (simp add: Validate_None)
  with c v show ?thesis by auto
qed

lemma apply_option_keeps_strict:
  assumes "apply_option opt g = Inr g'" and "opt \<noteq> WithStrictSchema False"
    and "\<exists>s. schema g = Some s \<and> strict s"
  shows "\<exists>s. schema g' = Some s \<and> strict s"
proof (cases opt)
  case (WithSchema v)
  with assms(1) obtain s where "NewSchema v = Inr s" "g' = g\<lparr>schema := Some s\<rparr>"
    by (auto split: sum.splits)
  then show ?thesis by (auto dest: NewSchema_strict)
next
  case (WithStrictSchema b)
  with assms(2) have "b" by simp
  with assms(1,3) WithStrictSchema show ?thesis by (auto simp: WithStrict_def)
qed (use assms(1,3) in \<open>auto split: option.splits if_splits\<close>)

lemma apply_options_keep_strict:
  "apply_options opts g = Inr g' \<Longrightarrow> WithStrictSchema False \<notin> set opts \<Longrightarrow>
   \<exists>s. schema g = Some s \<and> strict s \<Longrightarrow> \<exists>s. schema g' = Some s \<and> strict s"
proof (induction opts arbitrary: g)
  case Nil
  then show ?case by simp
next
  case (Cons opt opts)
  from Cons.prems(1) obtain g1 where
    1: "apply_option opt g = Inr g1" and 2: "apply_options opts g1 = Inr g'"
    by (auto split: sum.splits)
  from Cons.prems(2) have "opt \<noteq> WithStrictSchema False" by auto
  from apply_option_keeps_strict [OF 1 this Cons.prems(3)]
  have "\<exists>s. schema g1 = Some s \<and> strict s" .
  with Cons.IH [OF 2] Cons.prems(2) show ?case by simp
qed

lemma apply_option_keeps_lenient:
  assumes "apply_option opt g = Inr g'"
    and "\<forall>x. opt \<noteq> WithSchema x" and "opt \<noteq> WithStrictSchema True"
    and "\<exists>s. schema g = Some s \<and> \<not> strict s"
  shows "\<exists>s. schema g' = Some s \<and> \<not> strict s"
proof (cases opt)
  case (WithSchema v)
  with assms(2) show ?thesis by simp
next
  case (WithStrictSchema b)
  with assms(3) have "\<not> b" by simp
  with assms(1,4) WithStrictSchema show ?thesis by (auto simp: WithStrict_def)
qed (use assms(1,4) in \<open>auto split: option.splits if_splits\<close>)

lemma apply_options_keep_lenient:
  "apply_options opts g = Inr g' \<Longrightarrow>
   \<forall>opt\<in>set opts. (\<forall>x. opt \<noteq> WithSchema x) \<and> opt \<noteq> WithStrictSchema True \<Longrightarrow>
   \<exists>s. schema g = Some s \<and> \<not> strict s \<Longrightarrow> \<exists>s. schema g' = Some s \<and> \<not> strict s"
proof (induction opts arbitrary: g)
  case Nil
  then show ?case by simp
next
  case (Cons opt opts)
  from Cons.prems(1) obtain g1 where
    1: "apply_option opt g = Inr g1" and 2: "apply_options opts g1 = Inr g'"
    by (auto split: sum.splits)
  from Cons.prems(2) have "\<forall>x. opt \<noteq> WithSchema x" "opt \<noteq> WithStrictSchema True"
    by auto
  from apply_option_keeps_lenient [OF 1 this Cons.prems(3)]
  have "\<exists>s. schema g1 = Some s \<and> \<not> strict s" .
  with Cons.IH [OF 2] Cons.prems(2) show ?case by simp
qed

lemma schema_after_WithSchema:
  assumes "apply_options (pre @ WithSchema v # post) g0 = Inr g"
  shows "\<exists>g1 s. NewSchema v = Inr s \<and> strict s
           \<and> apply_options post (g1\<lparr>schema := Some s\<rparr>) = Inr g"
proof -
  from assms obtain g1 where
    "apply_options (WithSchema v # post) g1 = Inr g"
    by (auto simp: apply_options_append split: sum.splits)
  then obtain s where s: "NewSchema v = Inr s"
    and p: "apply_options post (g1\<lparr>schema := Some s\<rparr>) = Inr g"
    by (auto split: sum.splits)
  from s have "strict s" by (rule NewSchema_strict)
  with s p show ?thesis by blast
qed

text \<open>
  C10. The strictness set through options depends on their order. When New succeeds on an
  option list in which no \<open>WithStrictSchema(false)\<close> comes after a \<open>WithSchema\<close>, whatever
  comes before it, \<open>WithStrictSchema(false)\<close> included, the guard's schema is strict and
  rejects unknown fields: the option changes a schema only if one exists already, and New
  does nothing about the flag afterwards. When \<open>WithStrictSchema(false)\<close> comes right after
  \<open>WithSchema\<close> and neither \<open>WithSchema\<close> nor \<open>WithStrictSchema(true)\<close> follows, the schema
  is not strict.
\<close>

theorem New_strict_schema_order:
  "(New (pre @ WithSchema v # post) = Inr g \<and> WithStrictSchema False \<notin> set post
      \<longrightarrow> (\<exists>s. schema g = Some s \<and> strict s
               \<and> (\<forall>data j rest. readValue data = Some (j, rest) \<and> has_unknown (targetType s) j
                      \<longrightarrow> (\<exists>e. Unmarshal s data = Inl e))))
   \<and> (New (pre' @ WithSchema v' # WithStrictSchema False # post') = Inr g'
        \<and> (\<forall>opt\<in>set post'. (\<forall>x. opt \<noteq> WithSchema x) \<and> opt \<noteq> WithStrictSchema True)
      \<longrightarrow> (\<exists>s. schema g' = Some s \<and> \<not> strict s))"
proof (intro conjI impI; elim conjE)
  assume n: "New (pre @ WithSchema v # post) = Inr g" and p: "WithStrictSchema False \<notin> set post"
  from schema_after_WithSchema [OF New_applies [OF n]] obtain g1 s where
    s: "strict s" and a: "apply_options post (g1\<lparr>schema := Some s\<rparr>) = Inr g"
    by blast
  from apply_options_keep_strict [OF a p] s obtain s' where
    s': "schema g = Some s'" "strict s'" by auto
  then show "\<exists>s. schema g = Some s \<and> strict s
               \<and> (\<forall>data j rest. readValue data = Some (j, rest) \<and> has_unknown (targetType s) j
                      \<longrightarrow> (\<exists>e. Unmarshal s data = Inl e))"
    by (blast intro: Unmarshal_strict_unknown)
next
  assume n: "New (pre' @ WithSchema v' # WithStrictSchema False # post') = Inr g'"
    and p: "\<forall>opt\<in>set post'. (\<forall>x. opt \<noteq> WithSchema x) \<and> opt \<noteq> WithStrictSchema True"
  from schema_after_WithSchema [OF New_applies [OF n]] obtain g1 s where
    a: "apply_options (WithStrictSchema False # post') (g1\<lparr>schema := Some s\<rparr>) = Inr g'"
    by blast
  then have a': "apply_options post'
                   (g1\<lparr>schema := Some (WithStrict s False), strictSchema := False\<rparr>) = Inr g'"
    by simp
  have "\<exists>x. schema (g1\<lparr>schema := Some (WithStrict s False), strictSchema := False\<rparr>) = Some x
             \<and> \<not> strict x"
    by (simp add: WithStrict_def)
  from apply_options_keep_lenient [OF a' p this]
  show "\<exists>s. schema g' = Some s \<and> \<not> strict s" .
qed

lemma New_flag_first:
  "New [WithStrictSchema False, WithSchema (Some (Ptr (Plain (TStruct [(''name'', TString)])))),
        WithClient (Some stub_client)]
   = Inr \<lparr>client = Some stub_client, detectors = [], validators = [],
          schema = Some (name_schema True), retry = DefaultRetryConfig, timeout = 0,
          strictSchema = False\<rparr>"
  by (simp add: New_def name_schema_def)

theorem New_strict_schema_order_witness:
  \<open>\<exists>g s. New [WithStrictSchema False,
               WithSchema (Some (Ptr (Plain (TStruct [(''name'', TString)])))),
               WithClient (Some stub_client)] = Inr g
         \<and> WithStrictSchema False \<notin> set [WithClient (Some stub_client)]
         \<and> schema g = Some s \<and> strict s
         \<and> (\<exists>e. Unmarshal s ''{"name":"x","extra":"y"}'' = Inl e)\<close>
proof -
  let ?v = "Some (Ptr (Plain (TStruct [(''name'', TString)])))"
  let ?g = "\<lparr>client = Some stub_client, detectors = [], validators = [],
          schema = Some (name_schema True), retry = DefaultRetryConfig, timeout = 0,
          strictSchema = False\<rparr>"
  let ?j = "JObject [(''name'', JString ''x''), (''extra'', JString ''y'')]"
  have n: "New ([WithStrictSchema False] @ WithSchema ?v # [WithClient (Some stub_client)]) = Inr ?g"
    using New_flag_first by simp
  have p: "WithStrictSchema False \<notin> set [WithClient (Some stub_client)]" by simp
  from New_strict_schema_order [of "[WithStrictSchema False]" ?v "[WithClient (Some stub_client)]" ?g]
    n p
  obtain s where s: "schema ?g = Some s" "strict s"
    and r: "\<forall>data j rest. readValue data = Some (j, rest) \<and> has_unknown (targetType s) j
                      \<longrightarrow> (\<exists>e. Unmarshal s data = Inl e)"
    by blast
  from s(1) have t: "targetType s = TStruct [(''name'', TString)]" by (auto simp: name_schema_def)
  have "has_unknown (targetType s) ?j" by (simp add: t find_field_name find_field_extra)
  with r readValue_name_extra have \<open>\<exists>e. Unmarshal s ''{"name":"x","extra":"y"}'' = Inl e\<close>
    by blast
  with s New_flag_first p show ?thesis by auto
qed

subsection \<open>What follows the value does not change how it is read\<close>

lemma getu4_append: "getu4 s = Some n \<Longrightarrow> getu4 (s @ x) = Some n"
  by (auto simp: getu4_def split: list.splits option.splits)

lemma getu4_length: "getu4 s = Some n \<Longrightarrow> \<exists>a b c d rest. s = a # b # c # d # rest"
  by (auto simp: getu4_def split: list.splits)

lemma string_lit_Nil: "string_lit [] = None"
  by (subst string_lit.simps) simp

lemma string_lit_backslash:
  "string_lit (CHR 0x5C # d) =
     (case d of
        [] \<Rightarrow> None
      | e # es \<Rightarrow>
          if e = CHR ''u'' then
            (case unicode_escape es of
               None \<Rightarrow> None
             | Some (bs, n) \<Rightarrow>
                 (case string_lit (drop n es) of
                    None \<Rightarrow> None
                  | Some (v, r) \<Rightarrow> Some (bs @ v, r)))
          else
            (case simple_escape e of
               None \<Rightarrow> None
             | Some b \<Rightarrow>
                 (case string_lit es of
                    None \<Rightarrow> None
                  | Some (v, r) \<Rightarrow> Some (b # v, r))))"
  by (subst string_lit.simps) simp

lemma string_lit_quote: "string_lit (CHR 0x22 # cs) = Some ([], cs)"
  by (subst string_lit.simps) simp

lemma string_lit_plain:
  "c \<noteq> CHR 0x22 \<Longrightarrow> c \<noteq> CHR 0x5C \<Longrightarrow>
   string_lit (c # cs) =
     (if (of_char c :: nat) < 0x20 then None
      else case string_lit cs of None \<Rightarrow> None | Some (v, r) \<Rightarrow> Some (c # v, r))"
  by (subst string_lit.simps) simp

lemma string_lit_escape_head:
  assumes "string_lit (CHR 0x5C # d) = Some (v, r)"
  shows "\<exists>e es. d = e # es \<and> (e = CHR ''u'' \<longrightarrow> getu4 es \<noteq> None)"
proof (cases d)
  case Nil
  with assms show ?thesis by (simp add: string_lit_backslash)
next
  case (Cons e es)
  with assms show ?thesis
    by (auto simp: string_lit_backslash unicode_escape_def split: option.splits if_splits)
qed

lemma unicode_escape_lookahead:
  "unicode_escape (a # b # c # d # rest) =
     (case getu4 [a, b, c, d] of
        None \<Rightarrow> None
      | Some rr \<Rightarrow>
          if 0xD800 \<le> rr \<and> rr < 0xE000 then
            (case lookahead rest of
               Some rr1 \<Rightarrow>
                 if rr < 0xDC00 \<and> 0xDC00 \<le> rr1 \<and> rr1 < 0xE000
                 then Some (EncodeRune ((rr - 0xD800) * 1024 + (rr1 - 0xDC00) + 0x10000), 10)
                 else Some (EncodeRune 0xFFFD, 4)
             | None \<Rightarrow> Some (EncodeRune 0xFFFD, 4))
          else Some (EncodeRune rr, 4))"
  by (simp add: unicode_escape_def lookahead_def getu4_def split: option.splits)

lemma lookahead_Some_append: "lookahead rest = Some n \<Longrightarrow> lookahead (rest @ x) = Some n"
proof -
  assume a: "lookahead rest = Some n"
  then have t: "take 2 rest = [CHR 0x5C, CHR ''u'']" and g: "getu4 (drop 2 rest) = Some n"
    by (auto simp: lookahead_def split: if_splits)
  from t obtain r' where r: "rest = CHR 0x5C # CHR ''u'' # r'"
    by (cases rest; cases "tl rest") auto
  with g have "getu4 (r' @ x) = Some n" by (simp add: getu4_append)
  with r show ?thesis by (simp add: lookahead_def)
qed

lemma lookahead_None_append:
  assumes "lookahead rest = None" and "string_lit rest = Some (v, r)"
  shows "lookahead (rest @ x) = None"
proof (cases rest)
  case Nil
  with assms(2) show ?thesis by (simp add: string_lit_Nil)
next
  case (Cons c1 d)
  show ?thesis
  proof (cases "c1 = CHR 0x5C")
    case False
    with Cons show ?thesis by (simp add: lookahead_def)
  next
    case True
    from string_lit_escape_head [OF assms(2) [unfolded Cons True]] obtain e es where
      d: "d = e # es" and u: "e = CHR ''u'' \<longrightarrow> getu4 es \<noteq> None" by auto
    have "e \<noteq> CHR ''u''"
    proof
      assume e: "e = CHR ''u''"
      with u obtain n where "getu4 es = Some n" by auto
      with Cons True d e have "lookahead rest = Some n" by (simp add: lookahead_def)
      with assms(1) show False by simp
    qed
    with Cons True d show ?thesis by (simp add: lookahead_def)
  qed
qed

lemma unicode_escape_append:
  assumes "unicode_escape es = Some (bs, n)" and "string_lit (drop n es) = Some (v, r)"
  shows "unicode_escape (es @ x) = Some (bs, n) \<and> n \<le> length es"
proof -
  from assms(1) obtain rr where "getu4 es = Some rr"
    by (auto simp: unicode_escape_def split: option.splits)
  then obtain a b c d rest where es: "es = a # b # c # d # rest" by (auto dest: getu4_length)
  from assms(2) have ne: "drop n es \<noteq> []" by (auto simp: string_lit_Nil)
  then have n: "n \<le> length es" by (cases "n \<le> length es") auto
  show ?thesis
  proof (cases "lookahead rest")
    case (Some m)
    then have "lookahead (rest @ x) = lookahead rest" by (simp add: lookahead_Some_append)
    then have "unicode_escape (es @ x) = unicode_escape es"
      by (simp add: es unicode_escape_lookahead split: option.splits)
    with assms(1) n show ?thesis by simp
  next
    case None
    with assms(1) have n4: "n = 4"
      by (auto simp: es unicode_escape_lookahead split: option.splits if_splits)
    with assms(2) have "string_lit rest = Some (v, r)" by (simp add: es)
    with None have "lookahead (rest @ x) = None" by (rule lookahead_None_append)
    with None have "unicode_escape (es @ x) = unicode_escape es"
      by (simp add: es unicode_escape_lookahead split: option.splits)
    with assms(1) n show ?thesis by simp
  qed
qed

lemma string_lit_append:
  "string_lit s = Some (v, r) \<Longrightarrow> string_lit (s @ x) = Some (v, r @ x)"
proof (induction s arbitrary: v r rule: string_lit.induct)
  case (1 s)
  show ?case
  proof (cases s)
    case Nil
    with "1.prems" show ?thesis by (simp add: string_lit_Nil)
  next
    case (Cons c cs)
    note s = Cons
    show ?thesis
    proof (cases "c = CHR 0x22")
      case True
      with "1.prems" s show ?thesis by (simp add: string_lit_quote)
    next
      case nq: False
      show ?thesis
      proof (cases "c = CHR 0x5C")
        case bs: True
        from "1.prems" s bs obtain e es where cs: "cs = e # es"
          by (auto dest: string_lit_escape_head)
        show ?thesis
        proof (cases "e = CHR ''u''")
          case True
          with "1.prems" s bs cs obtain b n v' where
            u: "unicode_escape es = Some (b, n)" and l: "string_lit (drop n es) = Some (v', r)"
            and v: "v = b @ v'"
            by (auto simp: string_lit_backslash split: option.splits)
          from unicode_escape_append [OF u l] have
            u': "unicode_escape (es @ x) = Some (b, n)" and n: "n \<le> length es" by simp_all
          from "1.IH"(1) [OF s nq bs cs True u refl l]
          have "string_lit (drop n es @ x) = Some (v', r @ x)" .
          with n have "string_lit (drop n (es @ x)) = Some (v', r @ x)" by simp
          with u' v s bs cs True show ?thesis by (simp add: string_lit_backslash)
        next
          case False
          with "1.prems" s bs cs obtain b v' where
            u: "simple_escape e = Some b" and l: "string_lit es = Some (v', r)"
            and v: "v = b # v'"
            by (auto simp: string_lit_backslash split: option.splits)
          from "1.IH"(2) [OF s nq bs cs False u l]
          have "string_lit (es @ x) = Some (v', r @ x)" .
          with u v s bs cs False show ?thesis by (simp add: string_lit_backslash)
        qed
      next
        case nb: False
        with "1.prems" s nq obtain v' where
          c: "\<not> (of_char c :: nat) < 0x20" and l: "string_lit cs = Some (v', r)"
          and v: "v = c # v'"
          by (auto simp: string_lit_plain split: option.splits if_splits)
        from "1.IH"(3) [OF s nq nb c l] have "string_lit (cs @ x) = Some (v', r @ x)" .
        with c v s nq nb show ?thesis by (simp add: string_lit_plain)
      qed
    qed
  qed
qed

lemma digits_append:
  assumes "dropWhile isDigit s \<noteq> []"
  shows "takeWhile isDigit (s @ x) = takeWhile isDigit s"
    and "dropWhile isDigit (s @ x) = dropWhile isDigit s @ x"
proof -
  from assms obtain y where y: "y \<in> set s" "\<not> isDigit y"
    by (auto simp: dropWhile_eq_Nil_conv)
  then show "takeWhile isDigit (s @ x) = takeWhile isDigit s" by (rule takeWhile_append1)
  from y show "dropWhile isDigit (s @ x) = dropWhile isDigit s @ x" by (rule dropWhile_append1)
qed

lemma number_exp_append:
  assumes "number_exp pre s = Some (v, r)" and "r \<noteq> []"
  shows "number_exp pre (s @ x) = Some (v, r @ x)"
proof (cases s)
  case Nil
  with assms show ?thesis by (simp add: number_exp_def)
next
  case (Cons e t)
  show ?thesis
  proof (cases "e = CHR ''e'' \<or> e = CHR ''E''")
    case False
    with assms Cons show ?thesis by (auto simp: number_exp_def)
  next
    case True
    define sg where "sg = (case t of [] \<Rightarrow> [] | c # _ \<Rightarrow> if c = CHR ''+'' \<or> c = CHR ''-'' then [c] else [])"
    define r1 where "r1 = drop (length sg) t"
    from assms(1) Cons True have a: "takeWhile isDigit r1 \<noteq> []"
      and v: "v = pre @ e # sg @ takeWhile isDigit r1" and r: "r = dropWhile isDigit r1"
      by (auto simp: number_exp_def Let_def sg_def r1_def split: if_splits)
    from a have "r1 \<noteq> []" by auto
    then have t: "t \<noteq> []" by (auto simp: r1_def)
    then have sg': "(case t @ x of [] \<Rightarrow> [] | c # _ \<Rightarrow> if c = CHR ''+'' \<or> c = CHR ''-'' then [c] else []) = sg"
      by (cases t) (simp_all add: sg_def)
    have "length sg \<le> length t" using t by (cases t) (auto simp: sg_def)
    then have r1': "drop (length sg) (t @ x) = r1 @ x" by (simp add: r1_def)
    from assms(2) r have d: "dropWhile isDigit r1 \<noteq> []" by simp
    from a digits_append [OF d, of x] v r Cons True show ?thesis
      by (simp add: number_exp_def Let_def sg' r1' del: drop_append)
  qed
qed

lemma number_exp_rest_suffix:
  "number_exp pre s = Some (v, r) \<Longrightarrow> r \<noteq> [] \<Longrightarrow> s \<noteq> []"
  by (auto simp: number_exp_def)

lemma number_frac_append:
  assumes "number_frac pre s = Some (v, r)" and "r \<noteq> []"
  shows "number_frac pre (s @ x) = Some (v, r @ x)"
proof (cases s)
  case Nil
  with assms show ?thesis by (simp add: number_frac_def number_exp_def)
next
  case (Cons d t)
  show ?thesis
  proof (cases "d = CHR ''.''")
    case False
    with assms Cons have "number_exp pre s = Some (v, r)" by (simp add: number_frac_def)
    from number_exp_append [OF this assms(2), of x] False Cons show ?thesis
      by (simp add: number_frac_def)
  next
    case True
    with assms(1) Cons have a: "takeWhile isDigit t \<noteq> []"
      and e: "number_exp (pre @ d # takeWhile isDigit t) (dropWhile isDigit t) = Some (v, r)"
      by (auto simp: number_frac_def Let_def split: if_splits)
    from number_exp_rest_suffix [OF e assms(2)] have dn: "dropWhile isDigit t \<noteq> []" .
    from number_exp_append [OF e assms(2), of x] digits_append [OF dn, of x] a True Cons
    show ?thesis by (simp add: number_frac_def Let_def)
  qed
qed

lemma number_frac_rest_suffix:
  "number_frac pre s = Some (v, r) \<Longrightarrow> r \<noteq> [] \<Longrightarrow> s \<noteq> []"
  by (auto simp: number_frac_def number_exp_def)

lemma number_lit_append:
  assumes "number_lit (c # cs) = Some (v, r)" and "r \<noteq> []"
  shows "number_lit (c # cs @ x) = Some (v, r @ x)"
proof (cases "c = CHR ''-''")
  case True
  with assms(1) obtain c' cs' where cs: "cs = c' # cs'"
    by (cases cs) (auto simp: number_lit_def)
  show ?thesis
  proof (cases "c' = CHR ''0''")
    case z: True
    with assms(1) True cs have "number_frac [c, c'] cs' = Some (v, r)"
      by (simp add: number_lit_def)
    from number_frac_append [OF this assms(2), of x] True cs z show ?thesis
      by (simp add: number_lit_def)
  next
    case nz: False
    with assms(1) True cs have dg: "isDigit c'"
      and f: "number_frac (c # c' # takeWhile isDigit cs') (dropWhile isDigit cs') = Some (v, r)"
      by (auto simp: number_lit_def split: if_splits)
    from number_frac_rest_suffix [OF f assms(2)] have dn: "dropWhile isDigit cs' \<noteq> []" .
    from number_frac_append [OF f assms(2), of x] digits_append [OF dn, of x] True cs nz dg
    show ?thesis by (simp add: number_lit_def)
  qed
next
  case False
  show ?thesis
  proof (cases "c = CHR ''0''")
    case z: True
    with assms(1) False have "number_frac [c] cs = Some (v, r)"
      by (simp add: number_lit_def)
    from number_frac_append [OF this assms(2), of x] False z show ?thesis
      by (simp add: number_lit_def)
  next
    case nz: False
    with assms(1) False have dg: "isDigit c"
      and f: "number_frac (c # takeWhile isDigit cs) (dropWhile isDigit cs) = Some (v, r)"
      by (auto simp: number_lit_def split: if_splits)
    from number_frac_rest_suffix [OF f assms(2)] have dn: "dropWhile isDigit cs \<noteq> []" .
    from number_frac_append [OF f assms(2), of x] digits_append [OF dn, of x] False nz dg
    show ?thesis by (simp add: number_lit_def)
  qed
qed

lemma literal_append:
  assumes "take n cs = l" and "length l = n"
  shows "take n (cs @ x) = l" and "drop n (cs @ x) = drop n cs @ x"
proof -
  from assms have "length (take n cs) = n" by simp
  then have "n \<le> length cs" by simp
  with assms(1) show "take n (cs @ x) = l" and "drop n (cs @ x) = drop n cs @ x" by simp_all
qed

lemma token_at_string:
  "token_at (CHR 0x22) cs =
     (case string_lit cs of None \<Rightarrow> None | Some (v, r) \<Rightarrow> Some (TokString v, r))"
  by (simp add: token_at_def)

lemma token_at_number:
  assumes "c = CHR ''-'' \<or> isDigit c"
  shows "token_at c cs =
     (case number_lit (c # cs) of None \<Rightarrow> None | Some (v, r) \<Rightarrow> Some (TokNumber v, r))"
proof -
  from assms have "c \<noteq> CHR ''{''" "c \<noteq> CHR ''}''" "c \<noteq> CHR ''[''" "c \<noteq> CHR '']''"
    "c \<noteq> CHR '':''" "c \<noteq> CHR '',''" "c \<noteq> CHR 0x22"
    by (auto simp: isDigit_def)
  with assms show ?thesis by (simp add: token_at_def)
qed

lemma token_at_other:
  assumes "c \<noteq> CHR 0x22" and "\<not> (c = CHR ''-'' \<or> isDigit c)"
  shows "token_at c cs =
     (if c = CHR ''{'' then Some (LBrace, cs)
      else if c = CHR ''}'' then Some (RBrace, cs)
      else if c = CHR ''['' then Some (LBrack, cs)
      else if c = CHR '']'' then Some (RBrack, cs)
      else if c = CHR '':'' then Some (Colon, cs)
      else if c = CHR '','' then Some (Comma, cs)
      else if c = CHR ''t'' then
        (if take 3 cs = ''rue'' then Some (TokTrue, drop 3 cs) else None)
      else if c = CHR ''f'' then
        (if take 4 cs = ''alse'' then Some (TokFalse, drop 4 cs) else None)
      else if c = CHR ''n'' then
        (if take 3 cs = ''ull'' then Some (TokNull, drop 3 cs) else None)
      else None)"
  using assms unfolding token_at_def by (simp only: if_False)

lemma token_at_append:
  assumes "token_at c cs = Some (t, r)" and "isTokNumber t \<longrightarrow> r \<noteq> []"
  shows "token_at c (cs @ x) = Some (t, r @ x)"
proof (cases "c = CHR 0x22")
  case True
  with assms(1) obtain v where "string_lit cs = Some (v, r)" "t = TokString v"
    by (auto simp: token_at_string split: option.splits)
  with True show ?thesis by (simp add: token_at_string string_lit_append)
next
  case nq: False
  show ?thesis
  proof (cases "c = CHR ''-'' \<or> isDigit c")
    case True
    with assms(1) obtain v where n: "number_lit (c # cs) = Some (v, r)" "t = TokNumber v"
      by (auto simp: token_at_number split: option.splits)
    with assms(2) have "r \<noteq> []" by simp
    from number_lit_append [OF n(1) this, of x] n(2) show ?thesis
      by (simp add: token_at_number [OF True])
  next
    case False
    note o = token_at_other [OF nq False]
    note a = assms(1) [unfolded o]
    show ?thesis
    proof (cases "c = CHR ''t''")
      case True
      with a have "take 3 cs = ''rue''" "t = TokTrue" "r = drop 3 cs"
          by (auto split: if_splits)
        with literal_append [of 3 cs "''rue''" x] True show ?thesis
          unfolding o by simp
    next
      case nt: False
      show ?thesis
      proof (cases "c = CHR ''f''")
        case True
        with a have "take 4 cs = ''alse''" "t = TokFalse" "r = drop 4 cs"
          by (auto split: if_splits)
        with literal_append [of 4 cs "''alse''" x] True show ?thesis
          unfolding o by simp
      next
        case nf: False
        show ?thesis
        proof (cases "c = CHR ''n''")
          case True
          with a have "take 3 cs = ''ull''" "t = TokNull" "r = drop 3 cs"
          by (auto split: if_splits)
        with literal_append [of 3 cs "''ull''" x] True show ?thesis
          unfolding o by simp
        next
          case nn: False
          from a nt nf nn have "r = cs" by (auto split: if_splits)
          with a nt nf nn show ?thesis unfolding o by (auto split: if_splits)
        qed
      qed
    qed
  qed
qed

lemma next_token_append:
  assumes "next_token s = Some (t, r)" and "isTokNumber t \<longrightarrow> r \<noteq> []"
  shows "next_token (s @ x) = Some (t, r @ x)"
proof -
  from assms(1) obtain c cs where d: "dropWhile isSpace s = c # cs"
    and t: "token_at c cs = Some (t, r)"
    by (cases "dropWhile isSpace s") (simp_all add: next_token_def)
  have "c \<in> set (dropWhile isSpace s)" by (simp add: d)
  then have 1: "c \<in> set s" by (rule set_dropWhileD)
  have "\<not> isSpace (hd (dropWhile isSpace s))" by (rule hd_dropWhile) (simp add: d)
  then have 2: "\<not> isSpace c" by (simp add: d)
  from 1 2 have "dropWhile isSpace (s @ x) = dropWhile isSpace s @ x" by (rule dropWhile_append1)
  with d token_at_append [OF t assms(2), of x] show ?thesis by (simp add: next_token_def)
qed

lemma next_token_Nil: "next_token [] = None"
  by (simp add: next_token_def)

lemma scan_Nil: "scan st m [] = None"
  by (subst scan.simps) (simp add: next_token_Nil)

lemma complete_Done: "complete v st = Done v' \<Longrightarrow> st = [] \<and> v' = v"
  by (cases "(v, st)" rule: complete.cases) auto

lemma complete_Next: "complete v st = Next st' m' \<Longrightarrow> st' \<noteq> []"
  by (cases "(v, st)" rule: complete.cases) auto

lemma begin_value_Done:
  "begin_value st t = Done v \<Longrightarrow> st = [] \<and> (isJNumber v \<longleftrightarrow> isTokNumber t)"
  by (cases "(st, t)" rule: begin_value.cases)
    (auto simp: push_def dest: complete_Done split: if_splits)

lemma begin_value_Next: "begin_value st t = Next st' m' \<Longrightarrow> st' \<noteq> []"
  by (cases "(st, t)" rule: begin_value.cases)
    (auto simp: push_def dest: complete_Next split: if_splits)

lemma begin_string_result:
  "begin_string st t = Fail \<or> (\<exists>st' m'. begin_string st t = Next st' m' \<and> st' \<noteq> [])"
proof (cases st)
  case Nil
  then show ?thesis by (simp add: begin_string_def)
next
  case (Cons f st0)
  show ?thesis
  proof (cases f)
    case (InArray es)
    with Cons show ?thesis by (simp add: begin_string_def)
  next
    case (InObject ms p)
    show ?thesis
    proof (cases p)
      case (Some k)
      with Cons InObject show ?thesis by (simp add: begin_string_def)
    next
      case None
      with Cons InObject show ?thesis by (cases t) (simp_all add: begin_string_def)
    qed
  qed
qed

lemma end_value_result:
  "end_value st t = Fail
   \<or> (\<exists>st' m'. end_value st t = Next st' m' \<and> st' \<noteq> [])
   \<or> (\<exists>v. end_value st t = Done v \<and> isContainer v \<and> \<not> isTokNumber t)"
proof (cases st)
  case Nil
  then show ?thesis by (simp add: end_value_def)
next
  case (Cons f st0)
  show ?thesis
  proof (cases f)
    case (InArray es)
    have "complete (JArray (rev es)) st0 = Fail
          \<or> (\<exists>st' m'. complete (JArray (rev es)) st0 = Next st' m' \<and> st' \<noteq> [])
          \<or> complete (JArray (rev es)) st0 = Done (JArray (rev es))"
      by (cases "(JArray (rev es), st0)" rule: complete.cases) auto
    with Cons InArray show ?thesis by (auto simp: end_value_def)
  next
    case (InObject ms p)
    show ?thesis
    proof (cases p)
      case (Some k)
      with Cons InObject show ?thesis by (simp add: end_value_def)
    next
      case None
      have "complete (JObject (rev ms)) st0 = Fail
          \<or> (\<exists>st' m'. complete (JObject (rev ms)) st0 = Next st' m' \<and> st' \<noteq> [])
          \<or> complete (JObject (rev ms)) st0 = Done (JObject (rev ms))"
        by (cases "(JObject (rev ms), st0)" rule: complete.cases) auto
      with Cons InObject None show ?thesis by (auto simp: end_value_def)
    qed
  qed
qed

lemma sound_begin_value: "sound_result st t (begin_value st t)"
  by (cases "begin_value st t")
    (auto simp: sound_result_def dest: begin_value_Done begin_value_Next)

lemma sound_begin_string: "sound_result st t (begin_string st t)"
  using begin_string_result [of st t] by (auto simp: sound_result_def)

lemma sound_end_value: "sound_result st t (end_value st t)"
  using end_value_result [of st t] by (auto simp: sound_result_def)

lemma sound_complete_container:
  "isContainer v \<Longrightarrow> \<not> isTokNumber t \<Longrightarrow> sound_result st t (complete v st')"
  by (cases "complete v st'") (auto simp: sound_result_def dest: complete_Done complete_Next)

lemma step_BeginValueOrEmpty:
  "step st BeginValueOrEmpty t =
     (if (\<exists>st'. st = InArray [] # st') \<and> t = RBrack then complete (JArray []) (tl st)
      else begin_value st t)"
proof (cases st)
  case Nil
  then show ?thesis by (simp add: step_def)
next
  case (Cons f st0)
  show ?thesis
  proof (cases f)
    case (InArray es)
    with Cons show ?thesis by (cases es) (simp_all add: step_def)
  next
    case (InObject ms p)
    with Cons show ?thesis by (simp add: step_def)
  qed
qed

lemma step_BeginStringOrEmpty:
  "step st BeginStringOrEmpty t =
     (if (\<exists>st'. st = InObject [] None # st') \<and> t = RBrace then complete (JObject []) (tl st)
      else begin_string st t)"
proof (cases st)
  case Nil
  then show ?thesis by (simp add: step_def)
next
  case (Cons f st0)
  show ?thesis
  proof (cases f)
    case (InArray es)
    with Cons show ?thesis by (simp add: step_def)
  next
    case (InObject ms p)
    with Cons show ?thesis by (cases ms; cases p) (simp_all add: step_def)
  qed
qed

lemma sound_step: "sound_result st t (step st m t)"
proof (cases m)
  case BeginValue
  then show ?thesis by (simp add: step_def sound_begin_value)
next
  case BeginValueOrEmpty
  then show ?thesis
    by (simp add: step_BeginValueOrEmpty sound_begin_value sound_complete_container)
next
  case BeginStringOrEmpty
  then show ?thesis
    by (simp add: step_BeginStringOrEmpty sound_begin_string sound_complete_container)
next
  case BeginString
  then show ?thesis by (simp add: step_def sound_begin_string)
next
  case EndValue
  then show ?thesis by (simp add: step_def sound_end_value)
qed

lemma step_Done_number:
  "step st m t = Done v \<Longrightarrow> isTokNumber t \<Longrightarrow> isJNumber v \<and> st = []"
  using sound_step [of st t m] by (auto simp: sound_result_def)

lemma step_Done_scalar:
  "step st m t = Done v \<Longrightarrow> \<not> isContainer v \<Longrightarrow> st = [] \<and> (isJNumber v \<longleftrightarrow> isTokNumber t)"
  using sound_step [of st t m] by (auto simp: sound_result_def)

lemma step_Next: "step st m t = Next st' m' \<Longrightarrow> st' \<noteq> []"
  using sound_step [of st t m] by (auto simp: sound_result_def)

lemma scan_unfold:
  "scan st m s = Some (v, r) \<longleftrightarrow>
     (\<exists>t r0. next_token s = Some (t, r0)
        \<and> (step st m t = Done v \<and> r = r0
            \<or> (\<exists>st' m'. step st m t = Next st' m' \<and> scan st' m' r0 = Some (v, r))))"
  by (subst scan.simps) (auto split: option.splits step_result.splits)

lemma scan_append:
  "scan st m s = Some (v, r) \<Longrightarrow> (isJNumber v \<longrightarrow> r \<noteq> []) \<Longrightarrow>
   scan st m (s @ x) = Some (v, r @ x)"
proof (induction st m s rule: scan.induct)
  case (1 st m s)
  from "1.prems"(1) obtain t r0 where
    nt: "next_token s = Some (t, r0)" and
    alt: "step st m t = Done v \<and> r = r0
          \<or> (\<exists>st' m'. step st m t = Next st' m' \<and> scan st' m' r0 = Some (v, r))"
    using iffD1 [OF scan_unfold] by blast
  from alt show ?case
  proof
    assume d: "step st m t = Done v \<and> r = r0"
    have "isTokNumber t \<longrightarrow> r0 \<noteq> []"
      using d "1.prems"(2) by (auto dest: step_Done_number)
    from next_token_append [OF nt this, of x] d show ?thesis
      by (intro iffD2 [OF scan_unfold]) auto
  next
    assume "\<exists>st' m'. step st m t = Next st' m' \<and> scan st' m' r0 = Some (v, r)"
    then obtain st' m' where n: "step st m t = Next st' m'"
      and s: "scan st' m' r0 = Some (v, r)" by blast
    from s have "r0 \<noteq> []" by (auto simp: scan_Nil)
    then have "isTokNumber t \<longrightarrow> r0 \<noteq> []" by simp
    from next_token_append [OF nt this, of x]
    have nt': "next_token (s @ x) = Some (t, r0 @ x)" .
    from "1.IH" [OF nt refl n s "1.prems"(2)]
    have "scan st' m' (r0 @ x) = Some (v, r @ x)" .
    with nt' n show ?thesis by (intro iffD2 [OF scan_unfold]) auto
  qed
qed

lemma scan_container:
  "scan st m s = Some (v, r) \<Longrightarrow> st \<noteq> [] \<Longrightarrow> isContainer v"
proof (induction st m s rule: scan.induct)
  case (1 st m s)
  from "1.prems"(1) obtain t r0 where
    nt: "next_token s = Some (t, r0)" and
    alt: "step st m t = Done v \<and> r = r0
          \<or> (\<exists>st' m'. step st m t = Next st' m' \<and> scan st' m' r0 = Some (v, r))"
    using iffD1 [OF scan_unfold] by blast
  from alt show ?case
  proof
    assume "step st m t = Done v \<and> r = r0"
    with "1.prems"(2) show ?thesis by (auto dest: step_Done_scalar)
  next
    assume "\<exists>st' m'. step st m t = Next st' m' \<and> scan st' m' r0 = Some (v, r)"
    then obtain st' m' where n: "step st m t = Next st' m'"
      and s: "scan st' m' r0 = Some (v, r)" by blast
    from "1.IH" [OF nt refl n s] step_Next [OF n] show ?thesis by simp
  qed
qed

lemma decode_number_into_struct:
  "\<exists>e. decode_into du (TStruct fs) (JNumber n) cur = Inl e"
  by simp

lemma Unmarshal_decode_error:
  assumes "readValue data = Some (j, rest)"
    and "decode_into (strict s) (targetType s) j (zero_value (targetType s)) = Inl e"
  shows "\<exists>e'. Unmarshal s data = Inl e'"
proof -
  from assms(1) have "dropWhile isSpace data \<noteq> []" by (rule readValue_not_blank)
  with assms show ?thesis by (simp add: Unmarshal_def Decode_def)
qed

lemma Unmarshal_syntax_error:
  assumes "readValue data = None"
  shows "\<exists>e'. Unmarshal s data = Inl e'"
  using assms by (simp add: Unmarshal_def Decode_def)

lemma Unmarshal_More:
  assumes "readValue data = Some (j, rest)" and "More rest"
  shows "\<exists>e'. Unmarshal s data = Inl e'"
proof -
  from assms(1) have "dropWhile isSpace data \<noteq> []" by (rule readValue_not_blank)
  with assms show ?thesis by (auto simp: Unmarshal_def Decode_def split: sum.splits)
qed

text \<open>A bare number at the very end of the input: more input cannot turn it into anything
  but a number or a syntax error.\<close>

lemma readValue_number_extended:
  assumes "readValue v = Some (JNumber n, r)"
  shows "readValue (v @ t) = None \<or> (\<exists>n' r'. readValue (v @ t) = Some (JNumber n', r'))"
proof -
  from assms obtain tok r0 where
    nt: "next_token v = Some (tok, r0)" and
    alt: "step [] BeginValue tok = Done (JNumber n) \<and> r = r0
          \<or> (\<exists>st' m'. step [] BeginValue tok = Next st' m' \<and> scan st' m' r0 = Some (JNumber n, r))"
    unfolding readValue_def using iffD1 [OF scan_unfold] by blast
  have d: "step [] BeginValue tok = Done (JNumber n)"
  proof (rule disjE [OF alt])
    assume "\<exists>st' m'. step [] BeginValue tok = Next st' m' \<and> scan st' m' r0 = Some (JNumber n, r)"
    then obtain st' m' where n: "step [] BeginValue tok = Next st' m'"
      and s: "scan st' m' r0 = Some (JNumber n, r)" by blast
    from scan_container [OF s step_Next [OF n]] show ?thesis by simp
  qed simp
  from step_Done_scalar [OF d] have "isTokNumber tok" by simp
  then obtain k where tok: "tok = TokNumber k" by (cases tok) simp_all
  from nt obtain c cs where dw: "dropWhile isSpace v = c # cs"
    and ta: "token_at c cs = Some (tok, r0)"
    by (cases "dropWhile isSpace v") (simp_all add: next_token_def)
  have num: "c = CHR ''-'' \<or> isDigit c"
  proof (rule ccontr)
    assume no: "\<not> (c = CHR ''-'' \<or> isDigit c)"
    show False
    proof (cases "c = CHR 0x22")
      case True
      with ta tok show False by (auto simp: token_at_string split: option.splits)
    next
      case False
      from ta [unfolded token_at_other [OF False no]] tok show False
        by (auto split: if_splits)
    qed
  qed
  have "c \<in> set (dropWhile isSpace v)" by (simp add: dw)
  then have 1: "c \<in> set v" by (rule set_dropWhileD)
  have "\<not> isSpace (hd (dropWhile isSpace v))" by (rule hd_dropWhile) (simp add: dw)
  then have 2: "\<not> isSpace c" by (simp add: dw)
  from 1 2 have "dropWhile isSpace (v @ t) = dropWhile isSpace v @ t" by (rule dropWhile_append1)
  with dw have nt': "next_token (v @ t) = token_at c (cs @ t)" by (simp add: next_token_def)
  show ?thesis
  proof (cases "number_lit (c # cs @ t)")
    case None
    with nt' num have "next_token (v @ t) = None" by (simp add: token_at_number)
    then have "readValue (v @ t) = None"
      by (simp add: readValue_def scan.simps [of "[]" BeginValue "v @ t"])
    then show ?thesis by simp
  next
    case (Some p)
    obtain n' r' where p: "p = (n', r')" by (cases p)
    with Some nt' num have "next_token (v @ t) = Some (TokNumber n', r')"
      by (simp add: token_at_number)
    then have "readValue (v @ t) = Some (JNumber n', r')"
      by (simp add: readValue_def scan.simps [of "[]" BeginValue "v @ t"] step_def)
    then show ?thesis by blast
  qed
qed

text \<open>
  What the trailing-data check of Unmarshal does enforce. Let \<open>v\<close> be one well-formed JSON
  value, possibly with white space around it, and \<open>t\<close> trailing content whose first byte
  that is not white space is neither \<open>}\<close> nor \<open>]\<close>. Then a schema for a struct type, strict
  or not, returns an error on \<open>v\<close> followed by \<open>t\<close>.
\<close>

lemma Unmarshal_rejects_trailing:
  assumes wf: "readValue v = Some (j, r)" and ws: "dropWhile isSpace r = []"
    and tr: "dropWhile isSpace t = c # t'" and c: "c \<noteq> CHR '']''" "c \<noteq> CHR ''}''"
    and st: "targetType s = TStruct fs"
  shows "\<exists>e. Unmarshal s (v @ t) = Inl e"
proof (cases "isJNumber j \<and> r = []")
  case True
  then obtain n where j: "j = JNumber n" by (cases j) simp_all
  from readValue_number_extended [OF wf [unfolded j], of t]
  show ?thesis
  proof
    assume "readValue (v @ t) = None"
    then show ?thesis by (rule Unmarshal_syntax_error)
  next
    assume "\<exists>n' r'. readValue (v @ t) = Some (JNumber n', r')"
    then obtain n' r' where rv: "readValue (v @ t) = Some (JNumber n', r')" by blast
    have "\<exists>e. decode_into (strict s) (targetType s) (JNumber n') (zero_value (targetType s)) = Inl e"
      by (simp add: st)
    then show ?thesis using rv by (auto intro: Unmarshal_decode_error)
  qed
next
  case False
  then have "isJNumber j \<longrightarrow> r \<noteq> []" by simp
  from scan_append [OF wf [unfolded readValue_def] this, of t]
  have rv: "readValue (v @ t) = Some (j, r @ t)" by (simp add: readValue_def)
  from ws have "\<forall>x\<in>set r. isSpace x" by (simp add: dropWhile_eq_Nil_conv)
  then have "dropWhile isSpace (r @ t) = dropWhile isSpace t" by (simp add: dropWhile_append)
  with tr c have "More (r @ t)" by (simp add: More_def)
  with rv show ?thesis by (rule Unmarshal_More)
qed

lemma Unmarshal_rejects_garbage:
  \<open>\<exists>e. Unmarshal (name_schema b) (''{"name":"x"}'' @ ''GARBAGE'') = Inl e\<close>
proof -
  have 1: \<open>readValue ''{"name":"x"}'' = Some (JObject [(''name'', JString ''x'')], [])\<close>
    by code_simp
  have 2: "dropWhile isSpace ''GARBAGE'' = CHR ''G'' # ''ARBAGE''" by (simp add: isSpace_def)
  from Unmarshal_rejects_trailing [OF 1 _ 2, of "name_schema b"] show ?thesis
    by (simp add: name_schema_def)
qed

end
